theory Spec2Isabelle
  imports Main "HOL-Library.Sublist"
begin

section \<open>Teacher daily log: data model\<close>

text \<open>
  The program keeps three values in the session: the list of finalized records
  (\<open>teacher_data\<close>), the record being filled in (\<open>ongoing_record\<close>) and the list of
  fields still missing. A record is a dictionary with eight fixed keys; every value but
  the Friday flag is either \<open>None\<close> or a string.

  Text is a list of characters read as code points 0 to 255. On that range the
  character classes below are the ones of Python's \<open>str.lower\<close>, \<open>str.strip\<close> and of the
  \<open>re\<close> module for \<open>str\<close> patterns.
\<close>

record log_record =
  date_str :: "string option"
  arrival :: "string option"
  departure :: "string option"
  topics :: "string option"
  is_friday :: bool
  muhammad_marks :: "string option"
  abubakar_marks :: "string option"
  hafsa_marks :: "string option"

record session =
  teacher_data :: "log_record list"
  ongoing_record :: log_record
  missing_fields :: "string list"

definition empty_record :: log_record where
  "empty_record = \<lparr>date_str = None, arrival = None, departure = None, topics = None,
     is_friday = False, muhammad_marks = None, abubakar_marks = None, hafsa_marks = None\<rparr>"

definition initial_session :: session where
  "initial_session = \<lparr>teacher_data = [], ongoing_record = empty_record, missing_fields = []\<rparr>"

text \<open>Calendar dates and the clock, as \<open>datetime.date\<close> and \<open>datetime.now()\<close> give them.\<close>

record date =
  year :: nat
  month :: nat
  day :: nat

record datetime =
  dt_date :: date
  hour :: nat
  minute :: nat

fun dec :: "nat \<Rightarrow> string" where
  "dec n = (if n < 10 then [char_of (48 + n)] else dec (n div 10) @ [char_of (48 + n mod 10)])"

declare dec.simps [simp del]

definition zpad :: "nat \<Rightarrow> nat \<Rightarrow> string" where
  "zpad w n = replicate (w - length (dec n)) (CHR ''0'') @ dec n"

definition str_date :: "date \<Rightarrow> string" where
  \<comment> \<open>\<open>str(d)\<close> of a date is its ISO form \<open>%04d-%02d-%02d\<close>.\<close>
  "str_date d = zpad 4 (year d) @ ''-'' @ zpad 2 (month d) @ ''-'' @ zpad 2 (day d)"

section \<open>Characters and strings\<close>

definition code :: "char \<Rightarrow> nat" where
  "code c = of_char c"

definition is_digit :: "char \<Rightarrow> bool" where
  \<comment> \<open>\<open>\d\<close>\<close>
  "is_digit c = (48 \<le> code c \<and> code c \<le> 57)"

definition is_space :: "char \<Rightarrow> bool" where
  \<comment> \<open>\<open>\s\<close>, and what \<open>strip()\<close> removes\<close>
  "is_space c = ((9 \<le> code c \<and> code c \<le> 13) \<or> (28 \<le> code c \<and> code c \<le> 32)
     \<or> code c = 133 \<or> code c = 160)"

definition is_alpha :: "char \<Rightarrow> bool" where
  "is_alpha c = ((65 \<le> code c \<and> code c \<le> 90) \<or> (97 \<le> code c \<and> code c \<le> 122)
     \<or> code c = 170 \<or> code c = 181 \<or> code c = 186
     \<or> (192 \<le> code c \<and> code c \<le> 214) \<or> (216 \<le> code c \<and> code c \<le> 246)
     \<or> 248 \<le> code c)"

definition is_numeric :: "char \<Rightarrow> bool" where
  "is_numeric c = (is_digit c \<or> code c = 178 \<or> code c = 179 \<or> code c = 185
     \<or> (188 \<le> code c \<and> code c \<le> 190))"

definition is_word :: "char \<Rightarrow> bool" where
  \<comment> \<open>\<open>\w\<close>\<close>
  "is_word c = (is_alpha c \<or> is_numeric c \<or> c = CHR ''_'')"

definition not_newline :: "char \<Rightarrow> bool" where
  \<comment> \<open>\<open>.\<close> without DOTALL\<close>
  "not_newline c = (code c \<noteq> 10)"

definition lower_chr :: "char \<Rightarrow> char" where
  "lower_chr c = (if (65 \<le> code c \<and> code c \<le> 90) \<or> (192 \<le> code c \<and> code c \<le> 214)
       \<or> (216 \<le> code c \<and> code c \<le> 222)
     then char_of (code c + 32) else c)"

definition lower :: "string \<Rightarrow> string" where
  "lower s = map lower_chr s"

definition strip :: "string \<Rightarrow> string" where
  "strip s = rev (dropWhile is_space (rev (dropWhile is_space s)))"

section \<open>Regular expressions\<close>

text \<open>
  The patterns of the program use literals, character classes, alternation, greedy
  bounded or unbounded repetition of a class, and one capturing group. The matcher
  returns every way the pattern matches at the start of the input, in the order in which
  a backtracking engine tries them; each result is the text of the group (if the group
  took part) and the input left over. The engine's answer is the first result.
\<close>

datatype rx =
    Cls "char \<Rightarrow> bool"
  | Lit string
  | LitI string
  | Alt rx rx
  | Seq rx rx
  | Rep "char \<Rightarrow> bool" nat "nat option"
  | Grp rx

definition later :: "string option \<Rightarrow> string option \<Rightarrow> string option" where
  "later c1 c2 = (case c2 of None \<Rightarrow> c1 | Some g \<Rightarrow> Some g)"

fun rx_match :: "rx \<Rightarrow> string \<Rightarrow> (string option \<times> string) list" where
  "rx_match (Cls P) s = (case s of [] \<Rightarrow> [] | c # t \<Rightarrow> if P c then [(None, t)] else [])"
| "rx_match (Lit p) s =
     (if take (length p) s = p then [(None, drop (length p) s)] else [])"
| "rx_match (LitI p) s =
     (if lower (take (length p) s) = lower p then [(None, drop (length p) s)] else [])"
| "rx_match (Alt a b) s = rx_match a s @ rx_match b s"
| "rx_match (Seq a b) s =
     concat (map (\<lambda>(c1, r1). map (\<lambda>(c2, r2). (later c1 c2, r2)) (rx_match b r1))
       (rx_match a s))"
| "rx_match (Rep P lo hi) s =
     (let n = length (takeWhile P s);
          k = (case hi of None \<Rightarrow> n | Some h \<Rightarrow> min h n)
      in map (\<lambda>j. (None, drop j s)) (rev [lo..<Suc k]))"
| "rx_match (Grp a) s =
     map (\<lambda>(c, r). (Some (take (length s - length r) s), r)) (rx_match a s)"

definition group1 :: "string option \<Rightarrow> string" where
  "group1 c = (case c of None \<Rightarrow> [] | Some g \<Rightarrow> g)"

text \<open>
  \<open>re.findall\<close> with one group: scan from the left, at each position take the engine's
  match if there is one, record its group and go on after the match; otherwise move one
  character on. (A match that consumes nothing also moves one character on; none of the
  program's patterns can match the empty string.)
\<close>

function findall :: "rx \<Rightarrow> string \<Rightarrow> string list" where
  "findall r s =
     (case rx_match r s of
        [] \<Rightarrow> (case s of [] \<Rightarrow> [] | c # t \<Rightarrow> findall r t)
      | (cap, rest) # other \<Rightarrow>
          if length rest < length s then group1 cap # findall r rest
          else group1 cap # (case s of [] \<Rightarrow> [] | c # t \<Rightarrow> findall r t))"
  by pat_completeness auto
termination
  by (relation "measure (\<lambda>(r, s). length s)") auto

declare findall.simps [simp del]

text \<open>\<open>re.search\<close>: the group of the leftmost match, or \<open>None\<close>.\<close>

fun search :: "rx \<Rightarrow> string \<Rightarrow> string option" where
  "search r [] = (case rx_match r [] of [] \<Rightarrow> None | (cap, rest) # other \<Rightarrow> Some (group1 cap))"
| "search r (c # t) =
     (case rx_match r (c # t) of [] \<Rightarrow> search r t | (cap, rest) # other \<Rightarrow> Some (group1 cap))"

text \<open>The engine's answer at a position: the first result of the matcher, if any.\<close>

definition first_match :: "rx \<Rightarrow> string \<Rightarrow> (string option \<times> string) option" where
  "first_match r s = (case rx_match r s of [] \<Rightarrow> None | m # other \<Rightarrow> Some m)"

text \<open>The patterns of \<open>parse_user_text\<close>.\<close>

definition some_of :: "(char \<Rightarrow> bool) \<Rightarrow> rx" where
  "some_of P = Rep P 1 None"

definition any_of :: "(char \<Rightarrow> bool) \<Rightarrow> rx" where
  "any_of P = Rep P 0 None"

definition date_re :: rx where
  \<comment> \<open>\<open>(?:for|on)\s+([\w\s\-,]+)\<close> with IGNORECASE\<close>
  "date_re = Seq (Alt (LitI ''for'') (LitI ''on''))
     (Seq (some_of is_space)
       (Grp (some_of (\<lambda>c. is_word c \<or> is_space c \<or> c = CHR ''-'' \<or> c = CHR '',''))))"

definition hhmm :: rx where
  \<comment> \<open>\<open>(\d{1,2}:\d{2})\<close>\<close>
  "hhmm = Grp (Seq (Rep is_digit 1 (Some 2)) (Seq (Lit '':'') (Rep is_digit 2 (Some 2))))"

definition arrival_re :: rx where
  \<comment> \<open>\<open>(?:arrived|came)\s+at\s+(\d{1,2}:\d{2})\<close>\<close>
  "arrival_re = Seq (Alt (Lit ''arrived'') (Lit ''came''))
     (Seq (some_of is_space) (Seq (Lit ''at'') (Seq (some_of is_space) hhmm)))"

definition departure_re :: rx where
  \<comment> \<open>\<open>(?:left|departed)\s+at\s+(\d{1,2}:\d{2})\<close>\<close>
  "departure_re = Seq (Alt (Lit ''left'') (Lit ''departed''))
     (Seq (some_of is_space) (Seq (Lit ''at'') (Seq (some_of is_space) hhmm)))"

definition topics_re :: rx where
  \<comment> \<open>\<open>(?:studied|learned)\s+(.*)\<close>\<close>
  "topics_re = Seq (Alt (Lit ''studied'') (Lit ''learned''))
     (Seq (some_of is_space) (Grp (any_of not_newline)))"

definition mark_re :: "string \<Rightarrow> rx" where
  \<comment> \<open>\<open>{child_name}\s*[:]*\s*(\d{1,2})\<close>\<close>
  "mark_re child_name = Seq (Lit child_name)
     (Seq (any_of is_space) (Seq (any_of (\<lambda>c. c = CHR '':''))
       (Seq (any_of is_space) (Grp (Rep is_digit 1 (Some 2))))))"

section \<open>The operations\<close>

subsection \<open>Reminder\<close>

definition check_reminder :: "datetime \<Rightarrow> session \<Rightarrow> bool" where
  \<comment> \<open>The result says whether the warning is shown.\<close>
  "check_reminder now st =
     (if hour now \<ge> 18 then
        (let today_str = str_date (dt_date now);
             existing = list_ex (\<lambda>rec. date_str rec = Some today_str) (teacher_data st)
         in \<not> existing)
      else False)"

subsection \<open>Missing fields\<close>

definition find_missing_fields :: "session \<Rightarrow> string list" where
  "find_missing_fields st =
     (let rec = ongoing_record st in
      (if date_str rec = None then [''date_str''] else []) @
      (if arrival rec = None then [''arrival''] else []) @
      (if departure rec = None then [''departure''] else []) @
      (if topics rec = None then [''topics''] else []) @
      (if is_friday rec then
         (if muhammad_marks rec = None then [''muhammad_marks''] else []) @
         (if abubakar_marks rec = None then [''abubakar_marks''] else []) @
         (if hafsa_marks rec = None then [''hafsa_marks''] else [])
       else []))"

subsection \<open>Extraction\<close>

text \<open>
  The date parser is a library outside the program: \<open>dp s\<close> is the date of
  \<open>date_parser.parse(s)\<close>, and \<open>None\<close> when that call raises. \<open>today\<close> is
  \<open>date.today()\<close>.
\<close>

fun first_parsed :: "(string \<Rightarrow> date option) \<Rightarrow> string list \<Rightarrow> date option" where
  "first_parsed dp [] = None"
| "first_parsed dp (d # ds) =
     (case dp (strip d) of Some parsed \<Rightarrow> Some parsed | None \<Rightarrow> first_parsed dp ds)"

definition parse_mark :: "string \<Rightarrow> string \<Rightarrow> string option" where
  "parse_mark lower_text child_name =
     (let pattern = findall (mark_re child_name) lower_text
      in if pattern \<noteq> [] then Some (last pattern) else None)"

definition truthy :: "string option \<Rightarrow> bool" where
  \<comment> \<open>\<open>if m:\<close> for a value that is \<open>None\<close> or a string\<close>
  "truthy m = (case m of None \<Rightarrow> False | Some v \<Rightarrow> v \<noteq> [])"

definition parse_user_text ::
  "(string \<Rightarrow> date option) \<Rightarrow> date \<Rightarrow> string \<Rightarrow> session \<Rightarrow> session" where
  "parse_user_text dp today text st =
     (let lower_text = lower text;
          rec = ongoing_record st;
          possible_dates = findall date_re text;
          found_date = first_parsed dp possible_dates;
          rec = (case found_date of
                   Some d \<Rightarrow> rec\<lparr>date_str := Some (str_date d)\<rparr>
                 | None \<Rightarrow> if date_str rec = None
                           then rec\<lparr>date_str := Some (str_date today)\<rparr> else rec);
          rec = (if sublist ''friday'' lower_text then rec\<lparr>is_friday := True\<rparr> else rec);
          arrival_match = findall arrival_re lower_text;
          rec = (if arrival_match \<noteq> [] then rec\<lparr>arrival := Some (last arrival_match)\<rparr>
                 else rec);
          departure_match = findall departure_re lower_text;
          rec = (if departure_match \<noteq> []
                 then rec\<lparr>departure := Some (last departure_match)\<rparr> else rec);
          topics_match = search topics_re lower_text;
          rec = (case topics_match of
                   Some g \<Rightarrow> rec\<lparr>topics := Some (strip g)\<rparr>
                 | None \<Rightarrow> rec);
          rec = (if is_friday rec then
                   (let m_mark = parse_mark lower_text ''muhammad'';
                        rec = (if truthy m_mark then rec\<lparr>muhammad_marks := m_mark\<rparr> else rec);
                        a_mark = parse_mark lower_text ''abubakar'';
                        rec = (if truthy a_mark then rec\<lparr>abubakar_marks := a_mark\<rparr> else rec);
                        h_mark = parse_mark lower_text ''hafsa'';
                        rec = (if truthy h_mark then rec\<lparr>hafsa_marks := h_mark\<rparr> else rec)
                    in rec)
                 else rec)
      in st\<lparr>ongoing_record := rec\<rparr>)"

subsection \<open>Finalization\<close>

text \<open>
  The language model is outside the program: \<open>llm prompt\<close> is \<open>Inl e\<close> when the call
  raises an exception whose text is \<open>e\<close>, and otherwise the response, which is an
  \<open>AIMessage\<close> with its content or another object with its \<open>str\<close>.
\<close>

datatype llm_response = AIMessage string | OtherResponse string

datatype ui = Warning string | Success string | Info string | Write string

definition fmt :: "string option \<Rightarrow> string" where
  "fmt v = (case v of None \<Rightarrow> ''None'' | Some s \<Rightarrow> s)"

definition fmt_bool :: "bool \<Rightarrow> string" where
  "fmt_bool b = (if b then ''True'' else ''False'')"

definition summary_of :: "log_record \<Rightarrow> string" where
  "summary_of rec =
     ''Date: '' @ fmt (date_str rec) @ '', Arrival: '' @ fmt (arrival rec) @
     '', Departure: '' @ fmt (departure rec) @ '', '' @
     ''Topics: '' @ fmt (topics rec) @ '', isFriday: '' @ fmt_bool (is_friday rec) @ '', '' @
     ''Muhammad: '' @ fmt (muhammad_marks rec) @ '', Abubakar: '' @ fmt (abubakar_marks rec) @
     '', Hafsa: '' @ fmt (hafsa_marks rec)"

definition prompt_of :: "log_record \<Rightarrow> string" where
  "prompt_of rec = ''User gave teacher data:'' @ [char_of (10::nat)] @ summary_of rec @
     [char_of (10::nat)] @ ''Please reply acknowledging we've stored today's details.''"

definition finalize_record ::
  "(string \<Rightarrow> string + llm_response) \<Rightarrow> session \<Rightarrow> session \<times> ui list" where
  "finalize_record llm st =
     (let rec = ongoing_record st;
          st = st\<lparr>teacher_data := teacher_data st @ [rec]\<rparr>;
          gemini_reply = (case llm (prompt_of rec) of
                            Inr (AIMessage content) \<Rightarrow> content
                          | Inr (OtherResponse s) \<Rightarrow> s
                          | Inl e \<Rightarrow> ''Error calling Gemini: '' @ e);
          out = [Success ''All required data collected!'',
                 Info (''**Gemini**: '' @ gemini_reply)]
      in (st\<lparr>ongoing_record := empty_record, missing_fields := []\<rparr>, out))"

subsection \<open>One submission\<close>

definition ask_line :: "string \<Rightarrow> ui" where
  \<comment> \<open>\<open>st.write(f"- **{f}**")\<close>\<close>
  "ask_line f = Write (''- **'' @ f @ ''**'')"

definition submit ::
  "(string \<Rightarrow> date option) \<Rightarrow> date \<Rightarrow> (string \<Rightarrow> string + llm_response) \<Rightarrow>
   string \<Rightarrow> session \<Rightarrow> session \<times> ui list" where
  "submit dp today llm user_input st =
     (if strip user_input = [] then (st, [Warning ''Please type something first.''])
      else
        (let st = parse_user_text dp today user_input st;
             st = st\<lparr>missing_fields := find_missing_fields st\<rparr>
         in if length (missing_fields st) = 0 then finalize_record llm st
            else (st, Warning ''Some fields are missing. Please provide them in your next message:''
                      # map ask_line (missing_fields st))))"

section \<open>Sample inputs\<close>

text \<open>Concrete records, clocks and stand-ins for the two outside services, on which the
  theorems below are evaluated.\<close>

definition rec_plain :: log_record where
  "rec_plain = \<lparr>date_str = Some ''2025-02-11'', arrival = Some ''10:40'',
     departure = Some ''12:00'', topics = Some ''ai'', is_friday = False,
     muhammad_marks = None, abubakar_marks = None, hafsa_marks = None\<rparr>"

definition st_plain :: session where
  "st_plain = \<lparr>teacher_data = [], ongoing_record = rec_plain, missing_fields = []\<rparr>"

definition llm_down :: "string \<Rightarrow> string + llm_response" where
  "llm_down prompt = Inl ''503 unavailable''"

definition dp_jan :: "string \<Rightarrow> date option" where
  "dp_jan s = (if s = ''January 10th'' then Some \<lparr>year = 2025, month = 1, day = 10\<rparr> else None)"

definition dp_two :: "string \<Rightarrow> date option" where
  "dp_two s = (if s = ''January 10th'' then Some \<lparr>year = 2025, month = 1, day = 10\<rparr>
     else if s = ''5 March 987'' then Some \<lparr>year = 987, month = 3, day = 5\<rparr> else None)"

definition rec_dated :: log_record where
  "rec_dated = empty_record\<lparr>date_str := Some ''2024-12-31''\<rparr>"

definition st_dated :: session where
  "st_dated = initial_session\<lparr>ongoing_record := rec_dated\<rparr>"

definition a_day :: date where
  "a_day = \<lparr>year = 2025, month = 2, day = 11\<rparr>"

definition at_1830 :: datetime where
  "at_1830 = \<lparr>dt_date = a_day, hour = 18, minute = 30\<rparr>"

definition at_1759 :: datetime where
  "at_1759 = \<lparr>dt_date = a_day, hour = 17, minute = 59\<rparr>"

section \<open>Evaluation on concrete text\<close>

lemmas cls_defs = code_def is_digit_def is_space_def is_alpha_def is_numeric_def is_word_def
  not_newline_def

lemmas chr_defs = lower_def lower_chr_def code_def char_of_def bit_Suc_0_iff

lemmas rx_defs = date_re_def arrival_re_def departure_re_def topics_re_def mark_re_def hhmm_def
  some_of_def any_of_def later_def group1_def

lemmas date_defs = str_date_def zpad_def dec.simps char_of_def bit_Suc_0_iff

section \<open>Projections of the extractor\<close>

lemma parse_keeps_rest:
  "teacher_data (parse_user_text dp today text st) = teacher_data st"
  "missing_fields (parse_user_text dp today text st) = missing_fields st"
  by (simp_all add: parse_user_text_def Let_def)

lemma parse_date_str:
  "date_str (ongoing_record (parse_user_text dp today text st)) =
     (case first_parsed dp (findall date_re text) of
        Some d \<Rightarrow> Some (str_date d)
      | None \<Rightarrow> if date_str (ongoing_record st) = None then Some (str_date today)
                else date_str (ongoing_record st))"
  by (simp add: parse_user_text_def Let_def split: option.splits)

lemma parse_is_friday:
  "is_friday (ongoing_record (parse_user_text dp today text st)) =
     (is_friday (ongoing_record st) \<or> sublist ''friday'' (lower text))"
  by (simp add: parse_user_text_def Let_def split: option.splits)

lemma parse_arrival:
  "arrival (ongoing_record (parse_user_text dp today text st)) =
     (if findall arrival_re (lower text) \<noteq> []
      then Some (last (findall arrival_re (lower text)))
      else arrival (ongoing_record st))"
  by (simp add: parse_user_text_def Let_def split: option.splits)

lemma parse_departure:
  "departure (ongoing_record (parse_user_text dp today text st)) =
     (if findall departure_re (lower text) \<noteq> []
      then Some (last (findall departure_re (lower text)))
      else departure (ongoing_record st))"
  by (simp add: parse_user_text_def Let_def split: option.splits)

lemma parse_topics:
  "topics (ongoing_record (parse_user_text dp today text st)) =
     (case search topics_re (lower text) of
        Some g \<Rightarrow> Some (strip g)
      | None \<Rightarrow> topics (ongoing_record st))"
  by (simp add: parse_user_text_def Let_def split: option.splits)

lemma parse_muhammad:
  "muhammad_marks (ongoing_record (parse_user_text dp today text st)) =
     (if (is_friday (ongoing_record st) \<or> sublist ''friday'' (lower text))
         \<and> truthy (parse_mark (lower text) ''muhammad'')
      then parse_mark (lower text) ''muhammad''
      else muhammad_marks (ongoing_record st))"
  by (simp add: parse_user_text_def Let_def split: option.splits)

lemma parse_abubakar:
  "abubakar_marks (ongoing_record (parse_user_text dp today text st)) =
     (if (is_friday (ongoing_record st) \<or> sublist ''friday'' (lower text))
         \<and> truthy (parse_mark (lower text) ''abubakar'')
      then parse_mark (lower text) ''abubakar''
      else abubakar_marks (ongoing_record st))"
  by (simp add: parse_user_text_def Let_def split: option.splits)

lemma parse_hafsa:
  "hafsa_marks (ongoing_record (parse_user_text dp today text st)) =
     (if (is_friday (ongoing_record st) \<or> sublist ''friday'' (lower text))
         \<and> truthy (parse_mark (lower text) ''hafsa'')
      then parse_mark (lower text) ''hafsa''
      else hafsa_marks (ongoing_record st))"
  by (simp add: parse_user_text_def Let_def split: option.splits)

lemma first_parsed_Some_iff:
  "first_parsed dp ds = Some d \<longleftrightarrow>
     (\<exists>i < length ds. dp (strip (ds ! i)) = Some d \<and> (\<forall>j < i. dp (strip (ds ! j)) = None))"
proof (induction ds)
  case Nil
  then show ?case by simp
next
  case (Cons x xs)
  show ?case
  proof (cases "dp (strip x)")
    case None
    have "(\<exists>i < length (x # xs). dp (strip ((x # xs) ! i)) = Some d
            \<and> (\<forall>j < i. dp (strip ((x # xs) ! j)) = None))
        \<longleftrightarrow> (\<exists>i < length xs. dp (strip (xs ! i)) = Some d
            \<and> (\<forall>j < i. dp (strip (xs ! j)) = None))" (is "?L \<longleftrightarrow> ?R")
    proof
      assume ?L
      then obtain i where i: "i < length (x # xs)" "dp (strip ((x # xs) ! i)) = Some d"
        "\<forall>j < i. dp (strip ((x # xs) ! j)) = None" by blast
      from i None obtain k where k: "i = Suc k" by (cases i) auto
      have "\<forall>j < k. dp (strip (xs ! j)) = None"
      proof (intro allI impI)
        fix j assume "j < k"
        then have "Suc j < i" using k by simp
        with i(3) have "dp (strip ((x # xs) ! Suc j)) = None" by blast
        then show "dp (strip (xs ! j)) = None" by simp
      qed
      with i k show ?R by auto
    next
      assume ?R
      then obtain i where i: "i < length xs" "dp (strip (xs ! i)) = Some d"
        "\<forall>j < i. dp (strip (xs ! j)) = None" by blast
      have "\<forall>j < Suc i. dp (strip ((x # xs) ! j)) = None"
      proof (intro allI impI)
        fix j assume "j < Suc i"
        then show "dp (strip ((x # xs) ! j)) = None"
          using None i(3) by (cases j) auto
      qed
      with i show ?L by (intro exI[of _ "Suc i"]) auto
    qed
    with None Cons.IH show ?thesis by simp
  next
    case (Some p)
    have "(\<exists>i < length (x # xs). dp (strip ((x # xs) ! i)) = Some d
            \<and> (\<forall>j < i. dp (strip ((x # xs) ! j)) = None)) \<longleftrightarrow> p = d" (is "?L \<longleftrightarrow> _")
    proof
      assume ?L
      then obtain i where i: "i < length (x # xs)" "dp (strip ((x # xs) ! i)) = Some d"
        "\<forall>j < i. dp (strip ((x # xs) ! j)) = None" by blast
      have "i = 0"
      proof (rule ccontr)
        assume "i \<noteq> 0"
        then have "0 < i" by simp
        with i(3) have "dp (strip ((x # xs) ! 0)) = None" by blast
        with Some show False by simp
      qed
      with i Some show "p = d" by simp
    next
      assume "p = d"
      with Some show ?L by (intro exI[of _ 0]) auto
    qed
    with Some show ?thesis by simp
  qed
qed

lemma first_parsed_None_iff:
  "first_parsed dp ds = None \<longleftrightarrow> (\<forall>c \<in> set ds. dp (strip c) = None)"
  by (induction ds) (auto split: option.splits)

lemma ask_line_inj: "(ask_line f = ask_line g) = (f = g)"
  unfolding ask_line_def by (simp only: ui.inject same_append_eq append_same_eq)

section \<open>What the matcher returns\<close>

lemma in_match_Cls:
  "(c, r) \<in> set (rx_match (Cls P) s) \<longleftrightarrow> c = None \<and> (\<exists>x. s = x # r \<and> P x)"
  by (cases s) auto

lemma in_match_Lit:
  "(c, r) \<in> set (rx_match (Lit p) s) \<longleftrightarrow> c = None \<and> s = p @ r"
proof -
  have "take (length p) s = p \<longleftrightarrow> s = p @ drop (length p) s"
    by (metis append_eq_conv_conj append_take_drop_id)
  then show ?thesis by (auto simp: append_eq_conv_conj)
qed

lemma in_match_LitI:
  "(c, r) \<in> set (rx_match (LitI p) s) \<longleftrightarrow>
     c = None \<and> (\<exists>w. s = w @ r \<and> length w = length p \<and> lower w = lower p)"
proof
  assume "(c, r) \<in> set (rx_match (LitI p) s)"
  then have c: "c = None" and r: "r = drop (length p) s"
    and l: "lower (take (length p) s) = lower p"
    by (auto split: if_splits)
  from l have "length (take (length p) s) = length p"
    by (metis length_map lower_def)
  with c r l show "c = None \<and> (\<exists>w. s = w @ r \<and> length w = length p \<and> lower w = lower p)"
    by (intro conjI exI[of _ "take (length p) s"]) simp_all
next
  assume "c = None \<and> (\<exists>w. s = w @ r \<and> length w = length p \<and> lower w = lower p)"
  then show "(c, r) \<in> set (rx_match (LitI p) s)" by auto
qed

lemma in_match_Alt:
  "(c, r) \<in> set (rx_match (Alt a b) s) \<longleftrightarrow>
     (c, r) \<in> set (rx_match a s) \<or> (c, r) \<in> set (rx_match b s)"
  by simp

lemma in_match_Seq:
  "(c, r) \<in> set (rx_match (Seq a b) s) \<longleftrightarrow>
     (\<exists>c1 r1 c2. (c1, r1) \<in> set (rx_match a s) \<and> (c2, r) \<in> set (rx_match b r1)
        \<and> c = later c1 c2)"
  by (auto simp: image_iff) force+

lemma takeWhile_prefix_all:
  "j \<le> length (takeWhile P s) \<Longrightarrow> \<forall>x \<in> set (take j s). P x"
proof (induction s arbitrary: j)
  case Nil
  then show ?case by simp
next
  case (Cons a s)
  then show ?case by (cases j) (auto split: if_splits)
qed

lemma all_prefix_takeWhile:
  "\<forall>x \<in> set w. P x \<Longrightarrow> length w \<le> length (takeWhile P (w @ r))"
  by (induction w) auto

lemma in_match_Rep:
  "(c, r) \<in> set (rx_match (Rep P lo hi) s) \<longleftrightarrow>
     c = None \<and> (\<exists>w. s = w @ r \<and> (\<forall>x \<in> set w. P x) \<and> lo \<le> length w
        \<and> (case hi of None \<Rightarrow> True | Some h \<Rightarrow> length w \<le> h))"
  (is "?L \<longleftrightarrow> ?R")
proof
  assume ?L
  then obtain j where c: "c = None" and r: "r = drop j s" and lo: "lo \<le> j"
    and up: "j \<le> (case hi of None \<Rightarrow> length (takeWhile P s)
                   | Some h \<Rightarrow> min h (length (takeWhile P s)))"
    by (auto simp: Let_def)
  from up have jn: "j \<le> length (takeWhile P s)" by (cases hi) auto
  then have all: "\<forall>x \<in> set (take j s). P x" by (rule takeWhile_prefix_all)
  have "length (takeWhile P s) \<le> length s" by (rule length_takeWhile_le)
  with jn have len: "length (take j s) = j" by simp
  from up have hi: "(case hi of None \<Rightarrow> True | Some h \<Rightarrow> j \<le> h)" by (cases hi) auto
  from hi len have hi': "(case hi of None \<Rightarrow> True | Some h \<Rightarrow> length (take j s) \<le> h)"
    by (cases hi) simp_all
  have "s = take j s @ r" using r by simp
  with c lo all len hi' show ?R by metis
next
  assume ?R
  then obtain w where c: "c = None" and s: "s = w @ r" and all: "\<forall>x \<in> set w. P x"
    and lo: "lo \<le> length w" and hi: "(case hi of None \<Rightarrow> True | Some h \<Rightarrow> length w \<le> h)"
    by blast
  from all have "length w \<le> length (takeWhile P (w @ r))" by (rule all_prefix_takeWhile)
  with hi have up: "length w \<le> (case hi of None \<Rightarrow> length (takeWhile P s)
                   | Some h \<Rightarrow> min h (length (takeWhile P s)))"
    using s by (cases hi) auto
  define k where "k = (case hi of None \<Rightarrow> length (takeWhile P s)
                   | Some h \<Rightarrow> min h (length (takeWhile P s)))"
  from up have "length w \<le> k" by (simp only: k_def)
  with lo have mem: "length w \<in> set (rev [lo..<Suc k])" by auto
  have "(None, drop (length w) s) \<in> (\<lambda>j. (None, drop j s)) ` set (rev [lo..<Suc k])"
    using mem by (rule imageI)
  moreover have "drop (length w) s = r" using s by simp
  ultimately show ?L using c by (simp add: Let_def k_def)
qed

lemma in_match_Grp:
  "(c, r) \<in> set (rx_match (Grp a) s) \<longleftrightarrow>
     (\<exists>c'. (c', r) \<in> set (rx_match a s)) \<and> c = Some (take (length s - length r) s)"
  by (auto simp: image_iff) force+

lemmas in_match = in_match_Cls in_match_Lit in_match_LitI in_match_Alt in_match_Seq
  in_match_Rep in_match_Grp

lemma match_rest_suffix:
  "(c, r) \<in> set (rx_match a s) \<Longrightarrow> \<exists>w. s = w @ r"
proof (induction a arbitrary: c r s)
  case (Seq a b)
  then obtain c1 r1 c2 where 1: "(c1, r1) \<in> set (rx_match a s)"
    and 2: "(c2, r) \<in> set (rx_match b r1)"
    unfolding in_match_Seq by blast
  from Seq.IH(1)[OF 1] obtain w1 where "s = w1 @ r1" by blast
  moreover from Seq.IH(2)[OF 2] obtain w2 where "r1 = w2 @ r" by blast
  ultimately have "s = (w1 @ w2) @ r" by simp
  then show ?case by blast
next
  case (Grp a)
  then show ?case unfolding in_match_Grp by blast
next
  case (Alt a b)
  then show ?case unfolding in_match_Alt by blast
qed (auto simp: in_match simp del: rx_match.simps)


section \<open>The scan\<close>

lemma findall_miss:
  "rx_match r (c # t) = [] \<Longrightarrow> findall r (c # t) = findall r t"
  by (simp add: findall.simps)

lemma findall_hit:
  "rx_match r s = (cap, rest) # other \<Longrightarrow> length rest < length s \<Longrightarrow>
     findall r s = group1 cap # findall r rest"
  by (simp add: findall.simps)

lemma scan_split:
  assumes ne: "\<And>s c rest. (c, rest) \<in> set (rx_match r s) \<Longrightarrow> length rest < length s"
    and no: "\<And>s c rest j. (c, rest) \<in> set (rx_match r s) \<Longrightarrow> 0 < j \<Longrightarrow>
               j < length s - length rest \<Longrightarrow> rx_match r (drop j s) = []"
    and t: "rx_match r t \<noteq> []"
  shows "\<exists>ms. findall r (pre @ t) = ms @ findall r t"
proof (induction "length pre" arbitrary: pre rule: less_induct)
  case less
  show ?case
  proof (cases pre)
    case Nil
    then show ?thesis by simp
  next
    case (Cons x p)
    show ?thesis
    proof (cases "rx_match r (pre @ t)")
      case Nil
      then have "findall r (pre @ t) = findall r (p @ t)"
        using Cons by (simp add: findall_miss)
      moreover from less [of p] Cons obtain ms where "findall r (p @ t) = ms @ findall r t"
        by auto
      ultimately show ?thesis by auto
    next
      case (Cons m other)
      obtain c rest where m: "m = (c, rest)" by (cases m)
      from Cons m have mem: "(c, rest) \<in> set (rx_match r (pre @ t))" by simp
      from ne [OF mem] have shorter: "length rest < length (pre @ t)" .
      from match_rest_suffix [OF mem] obtain w where w: "pre @ t = w @ rest" by blast
      from w shorter have wne: "w \<noteq> []" by auto
      have lw: "length w = length (pre @ t) - length rest" using w
        by (metis add_diff_cancel_right' length_append)
      have le: "length w \<le> length pre"
      proof (rule ccontr)
        assume "\<not> length w \<le> length pre"
        then have j: "length pre < length (pre @ t) - length rest" using lw by simp
        from \<open>pre = x # p\<close> have "0 < length pre" by simp
        from no [OF mem this j] have "rx_match r t = []" by simp
        with t show False by contradiction
      qed
      from w le have rest: "rest = drop (length w) pre @ t"
        by (metis append_eq_conv_conj drop_append diff_is_0_eq drop0)
      have "length (drop (length w) pre) < length pre"
        using wne \<open>pre = x # p\<close> by (cases w) auto
      from less [OF this] obtain ms where
        "findall r (drop (length w) pre @ t) = ms @ findall r t" by blast
      moreover have "findall r (pre @ t) = group1 c # findall r rest"
        using Cons m shorter by (simp add: findall_hit)
      ultimately show ?thesis using rest by auto
    qed
  qed
qed

lemma inner_start:
  assumes "0 < j" "j < length w" "drop j (w @ rest) = k1 # k2 # t"
  shows "last w = k1 \<or> sublist [k1, k2] (tl w)"
proof -
  from assms(2) have d: "drop j (w @ rest) = drop j w @ rest" by simp
  from assms(2) have ne: "drop j w \<noteq> []" by simp
  from assms(1,2) obtain x p where tk: "take j w = x # p" by (cases "take j w") auto
  have w: "w = x # p @ drop j w" using tk by (metis append_Cons append_take_drop_id)
  show ?thesis
  proof (cases "drop j w")
    case Nil
    with ne show ?thesis by simp
  next
    case (Cons a u)
    with d assms(3) have a: "a = k1" by simp
    show ?thesis
    proof (cases u)
      case Nil
      with Cons a have "drop j w = [k1]" by simp
      with ne have "last w = k1" by (metis last_drop assms(2) last.simps)
      then show ?thesis by simp
    next
      case (Cons b v)
      with \<open>drop j w = a # u\<close> d assms(3) a have "drop j w = k1 # k2 # v" by simp
      with w have "tl w = p @ [k1, k2] @ v" by (metis append_Cons append_Nil list.sel(3))
      then show ?thesis unfolding sublist_def by blast
    qed
  qed
qed

section \<open>The engine's match\<close>

lemma first_match_mem:
  "first_match r s = Some (c, rest) \<Longrightarrow> (c, rest) \<in> set (rx_match r s)"
  by (auto simp: first_match_def split: list.splits)

lemma first_match_None: "first_match r s = None \<longleftrightarrow> rx_match r s = []"
  by (auto simp: first_match_def split: list.splits)

lemma first_Lit: "first_match (Lit p) (p @ r) = Some (None, r)"
  by (simp add: first_match_def)

lemma first_Alt:
  "first_match (Alt a b) s = (case first_match a s of Some m \<Rightarrow> Some m | None \<Rightarrow> first_match b s)"
  by (simp add: first_match_def split: list.splits)

lemma first_Seq:
  "first_match a s = Some (c1, r1) \<Longrightarrow> first_match b r1 = Some (c2, r2) \<Longrightarrow>
     first_match (Seq a b) s = Some (later c1 c2, r2)"
  by (auto simp: first_match_def split: list.splits)

lemma takeWhile_run:
  "\<forall>x \<in> set w. P x \<Longrightarrow> r = [] \<or> \<not> P (hd r) \<Longrightarrow> takeWhile P (w @ r) = w"
  by (induction w) (auto simp: takeWhile_eq_Nil_iff hd_conv_nth intro: list.exhaust_sel)

lemma first_Rep_run:
  assumes "\<forall>x \<in> set w. P x" "r = [] \<or> \<not> P (hd r)" "lo \<le> length w"
  shows "first_match (Rep P lo None) (w @ r) = Some (None, r)"
proof -
  from assms(1,2) have "takeWhile P (w @ r) = w" by (rule takeWhile_run)
  with assms(3) show ?thesis by (simp add: first_match_def Let_def)
qed

lemma first_Rep_upto:
  assumes "\<forall>x \<in> set w. P x" "length w = h \<or> (length w < h \<and> (r = [] \<or> \<not> P (hd r)))"
    "lo \<le> length w"
  shows "first_match (Rep P lo (Some h)) (w @ r) = Some (None, r)"
proof -
  from assms(1) have le: "length w \<le> length (takeWhile P (w @ r))"
    by (rule all_prefix_takeWhile)
  define k where "k = min h (length (takeWhile P (w @ r)))"
  have m: "min h (length (takeWhile P (w @ r))) = length w"
  proof (cases "length w = h")
    case True
    with le show ?thesis by simp
  next
    case False
    with assms(2) have lt: "length w < h" and stop: "r = [] \<or> \<not> P (hd r)" by auto
    from assms(1) stop have "takeWhile P (w @ r) = w" by (rule takeWhile_run)
    with lt show ?thesis by simp
  qed
  have k: "k = length w" by (simp only: k_def m)
  have "rx_match (Rep P lo (Some h)) (w @ r)
      = map (\<lambda>j. (None, drop j (w @ r))) (rev [lo..<Suc k])"
    by (simp add: Let_def k_def)
  also have "rev [lo..<Suc k] = k # rev [lo..<k]" using assms(3) k by simp
  finally show ?thesis by (simp add: first_match_def k)
qed

lemma first_Grp:
  "first_match a (w @ r) = Some (c, r) \<Longrightarrow> first_match (Grp a) (w @ r) = Some (Some w, r)"
  by (auto simp: first_match_def split: list.splits)

lemma findall_first:
  "first_match r s = Some (cap, rest) \<Longrightarrow> length rest < length s \<Longrightarrow>
     findall r s = group1 cap # findall r rest"
proof -
  assume "first_match r s = Some (cap, rest)" and len: "length rest < length s"
  then obtain other where "rx_match r s = (cap, rest) # other"
    by (auto simp: first_match_def split: list.splits)
  from this len show ?thesis by (rule findall_hit)
qed

lemma later_simps [simp]: "later c None = c" "later c (Some g) = Some g"
  by (simp_all add: later_def)

section \<open>The shape of a match\<close>

lemma hhmm_shape:
  "(c, r) \<in> set (rx_match hhmm s) \<longleftrightarrow>
     (\<exists>d1 d2. s = d1 @ '':'' @ d2 @ r \<and> d1 \<noteq> [] \<and> length d1 \<le> 2 \<and> list_all is_digit d1
        \<and> length d2 = 2 \<and> list_all is_digit d2 \<and> c = Some (d1 @ '':'' @ d2))"
  (is "?L \<longleftrightarrow> ?R")
proof
  assume ?L
  then obtain c' where c: "c = Some (take (length s - length r) s)"
    and m: "(c', r) \<in> set (rx_match (Seq (Rep is_digit 1 (Some 2))
               (Seq (Lit '':'') (Rep is_digit 2 (Some 2)))) s)"
    unfolding hhmm_def in_match_Grp by blast
  from m obtain r1 r2 where 1: "(None, r1) \<in> set (rx_match (Rep is_digit 1 (Some 2)) s)"
    and 2: "(None, r2) \<in> set (rx_match (Lit '':'') r1)"
    and 3: "(None, r) \<in> set (rx_match (Rep is_digit 2 (Some 2)) r2)"
    unfolding in_match_Seq in_match_Rep in_match_Lit by blast
  from 1 obtain d1 where d1: "s = d1 @ r1" "\<forall>x \<in> set d1. is_digit x" "1 \<le> length d1" "length d1 \<le> 2"
    unfolding in_match_Rep by auto
  from 2 have r1: "r1 = '':'' @ r2" unfolding in_match_Lit by simp
  from 3 obtain d2 where d2: "r2 = d2 @ r" "\<forall>x \<in> set d2. is_digit x" "2 \<le> length d2" "length d2 \<le> 2"
    unfolding in_match_Rep by auto
  have s: "s = (d1 @ '':'' @ d2) @ r" using d1 r1 d2 by simp
  then have "take (length s - length r) s = d1 @ '':'' @ d2" by simp
  with c s d1 d2 show ?R
    by (intro exI[of _ d1] exI[of _ d2]) (auto simp: list_all_iff)
next
  assume ?R
  then obtain d1 d2 where s: "s = d1 @ '':'' @ d2 @ r" and d1: "d1 \<noteq> []" "length d1 \<le> 2"
    "list_all is_digit d1" and d2: "length d2 = 2" "list_all is_digit d2"
    and c: "c = Some (d1 @ '':'' @ d2)" by blast
  have 1: "(None, '':'' @ d2 @ r) \<in> set (rx_match (Rep is_digit 1 (Some 2)) s)"
    unfolding in_match_Rep using s d1 by (auto simp: list_all_iff Suc_le_eq)
  have 2: "(None, d2 @ r) \<in> set (rx_match (Lit '':'') ('':'' @ d2 @ r))"
    unfolding in_match_Lit by simp
  have 3: "(None, r) \<in> set (rx_match (Rep is_digit 2 (Some 2)) (d2 @ r))"
    unfolding in_match_Rep using d2 by (auto simp: list_all_iff)
  from 2 3 have "(None, r) \<in> set (rx_match (Seq (Lit '':'') (Rep is_digit 2 (Some 2))) ('':'' @ d2 @ r))"
    unfolding in_match_Seq by (metis later_simps(1))
  with 1 have "(None, r) \<in> set (rx_match (Seq (Rep is_digit 1 (Some 2))
               (Seq (Lit '':'') (Rep is_digit 2 (Some 2)))) s)"
    unfolding in_match_Seq by (metis later_simps(1))
  moreover have "take (length s - length r) s = d1 @ '':'' @ d2" using s by simp
  ultimately show ?L unfolding hhmm_def in_match_Grp using c
    by (auto simp del: rx_match.simps)
qed

lemma hhmm_first:
  assumes "d1 \<noteq> []" "length d1 \<le> 2" "list_all is_digit d1" "length d2 = 2" "list_all is_digit d2"
  shows "first_match hhmm (d1 @ '':'' @ d2 @ r) = Some (Some (d1 @ '':'' @ d2), r)"
proof -
  have colon: "\<not> is_digit (CHR '':'')" by (simp add: cls_defs)
  have 1: "first_match (Rep is_digit 1 (Some 2)) (d1 @ '':'' @ d2 @ r) = Some (None, '':'' @ d2 @ r)"
    using assms(1-3) colon by (intro first_Rep_upto) (auto simp: list_all_iff Suc_le_eq)
  have 2: "first_match (Lit '':'') ('':'' @ d2 @ r) = Some (None, d2 @ r)"
    by (rule first_Lit)
  have 3: "first_match (Rep is_digit 2 (Some 2)) (d2 @ r) = Some (None, r)"
    using assms(4,5) by (intro first_Rep_upto) (auto simp: list_all_iff)
  from first_Seq [OF 2 3] have 23: "first_match (Seq (Lit '':'') (Rep is_digit 2 (Some 2)))
      ('':'' @ d2 @ r) = Some (None, r)" by simp
  from first_Seq [OF 1 23] have "first_match (Seq (Rep is_digit 1 (Some 2))
      (Seq (Lit '':'') (Rep is_digit 2 (Some 2)))) ((d1 @ '':'' @ d2) @ r) = Some (None, r)"
    by simp
  from first_Grp [OF this] show ?thesis by (simp add: hhmm_def)
qed

lemma time_shape:
  assumes r: "r = Seq (Alt (Lit k1) (Lit k2))
       (Seq (some_of is_space) (Seq (Lit ''at'') (Seq (some_of is_space) hhmm)))"
    and m: "(c, rest) \<in> set (rx_match r s)"
  shows "\<exists>kw sp1 sp2 d1 d2. s = kw @ sp1 @ ''at'' @ sp2 @ d1 @ '':'' @ d2 @ rest
      \<and> (kw = k1 \<or> kw = k2) \<and> sp1 \<noteq> [] \<and> list_all is_space sp1
      \<and> sp2 \<noteq> [] \<and> list_all is_space sp2
      \<and> d1 \<noteq> [] \<and> length d1 \<le> 2 \<and> list_all is_digit d1
      \<and> length d2 = 2 \<and> list_all is_digit d2 \<and> c = Some (d1 @ '':'' @ d2)"
proof -
  from m obtain c1 r1 c2 r2 c3 r3 c4 r4 c5 where
    1: "(c1, r1) \<in> set (rx_match (Alt (Lit k1) (Lit k2)) s)"
    and 2: "(c2, r2) \<in> set (rx_match (Rep is_space 1 None) r1)"
    and 3: "(c3, r3) \<in> set (rx_match (Lit ''at'') r2)"
    and 4: "(c4, r4) \<in> set (rx_match (Rep is_space 1 None) r3)"
    and 5: "(c5, rest) \<in> set (rx_match hhmm r4)"
    and c: "c = later c1 (later c2 (later c3 (later c4 c5)))"
    unfolding r some_of_def in_match_Seq by blast
  from 1 obtain kw where kw: "kw = k1 \<or> kw = k2" "s = kw @ r1" "c1 = None"
    unfolding in_match_Alt in_match_Lit by blast
  from 2 obtain sp1 where sp1: "r1 = sp1 @ r2" "\<forall>x \<in> set sp1. is_space x" "1 \<le> length sp1" "c2 = None"
    unfolding in_match_Rep by auto
  from 3 have at: "r2 = ''at'' @ r3" "c3 = None" unfolding in_match_Lit by simp_all
  from 4 obtain sp2 where sp2: "r3 = sp2 @ r4" "\<forall>x \<in> set sp2. is_space x" "1 \<le> length sp2" "c4 = None"
    unfolding in_match_Rep by auto
  from 5 obtain d1 d2 where h: "r4 = d1 @ '':'' @ d2 @ rest" "d1 \<noteq> []" "length d1 \<le> 2"
    "list_all is_digit d1" "length d2 = 2" "list_all is_digit d2" "c5 = Some (d1 @ '':'' @ d2)"
    unfolding hhmm_shape by blast
  have s: "s = kw @ sp1 @ ''at'' @ sp2 @ d1 @ '':'' @ d2 @ rest"
    using kw sp1 at sp2 h by simp
  have cc: "c = Some (d1 @ '':'' @ d2)" using c h(7) by simp
  have n1: "sp1 \<noteq> []" "sp2 \<noteq> []" using sp1(3) sp2(3) by auto
  show ?thesis
    using s kw(1) n1 sp1(2) sp2(2) h(2-6) cc
    by (intro exI[of _ kw] exI[of _ sp1] exI[of _ sp2] exI[of _ d1] exI[of _ d2])
       (simp add: list_all_iff)
qed

lemma time_first:
  assumes r: "r = Seq (Alt (Lit k1) (Lit k2))
       (Seq (some_of is_space) (Seq (Lit ''at'') (Seq (some_of is_space) hhmm)))"
    and kw: "first_match (Alt (Lit k1) (Lit k2)) (kw @ sp1 @ ''at'' @ sp2 @ d1 @ '':'' @ d2 @ post)
       = Some (None, sp1 @ ''at'' @ sp2 @ d1 @ '':'' @ d2 @ post)"
    and sp: "sp1 \<noteq> []" "list_all is_space sp1" "sp2 \<noteq> []" "list_all is_space sp2"
    and d: "d1 \<noteq> []" "length d1 \<le> 2" "list_all is_digit d1" "length d2 = 2" "list_all is_digit d2"
  shows "first_match r (kw @ sp1 @ ''at'' @ sp2 @ d1 @ '':'' @ d2 @ post)
      = Some (Some (d1 @ '':'' @ d2), post)"
proof -
  have a: "\<not> is_space (CHR ''a'')" by (simp add: cls_defs)
  have dg: "\<not> is_space (hd d1)" using d(1,3) by (cases d1) (auto simp: cls_defs)
  have 5: "first_match hhmm (d1 @ '':'' @ d2 @ post) = Some (Some (d1 @ '':'' @ d2), post)"
    using d by (rule hhmm_first)
  have 4: "first_match (Rep is_space 1 None) (sp2 @ d1 @ '':'' @ d2 @ post)
      = Some (None, d1 @ '':'' @ d2 @ post)"
    using sp(3,4) d(1) dg by (intro first_Rep_run) (auto simp: list_all_iff Suc_le_eq)
  have 3: "first_match (Lit ''at'') (''at'' @ sp2 @ d1 @ '':'' @ d2 @ post)
      = Some (None, sp2 @ d1 @ '':'' @ d2 @ post)"
    by (rule first_Lit)
  have 2: "first_match (Rep is_space 1 None) (sp1 @ ''at'' @ sp2 @ d1 @ '':'' @ d2 @ post)
      = Some (None, ''at'' @ sp2 @ d1 @ '':'' @ d2 @ post)"
    using sp(1,2) a by (intro first_Rep_run) (auto simp: list_all_iff Suc_le_eq)
  note 45 = first_Seq [OF 4 5]
  note 345 = first_Seq [OF 3 45]
  note 2345 = first_Seq [OF 2 345]
  from first_Seq [OF kw 2345] show ?thesis by (simp add: r some_of_def)
qed

section \<open>Where a match can begin\<close>


lemma sep_not_letter:
  "is_space c \<Longrightarrow> code c < 97 \<or> 122 < code c"
  "is_digit c \<Longrightarrow> code c < 97 \<or> 122 < code c"
  "c = CHR '':'' \<Longrightarrow> code c < 97 \<or> 122 < code c"
  by (auto simp: cls_defs)

lemma sublist_skip:
  "\<forall>c \<in> set u. c \<noteq> a \<Longrightarrow> sublist (a # bs) (u @ v) = sublist (a # bs) v"
  by (induction u) (auto simp: sublist_Cons_right)

lemma skip_seps:
  assumes "\<forall>c \<in> set u. code c < 97 \<or> 122 < code c" "97 \<le> code a" "code a \<le> 122"
  shows "sublist (a # bs) (u @ v) = sublist (a # bs) v"
proof (rule sublist_skip, rule ballI)
  fix c assume "c \<in> set u"
  with assms(1) have "code c < 97 \<or> 122 < code c" by blast
  with assms(2,3) show "c \<noteq> a" by auto
qed

lemma skip_spaces:
  "list_all is_space u \<Longrightarrow> 97 \<le> code a \<Longrightarrow> code a \<le> 122 \<Longrightarrow>
     sublist (a # bs) (u @ v) = sublist (a # bs) v"
  by (rule skip_seps) (simp_all add: list_all_iff sep_not_letter)

lemma skip_digits:
  "list_all is_digit u \<Longrightarrow> 97 \<le> code a \<Longrightarrow> code a \<le> 122 \<Longrightarrow>
     sublist (a # bs) (u @ v) = sublist (a # bs) v"
  by (rule skip_seps) (simp_all add: list_all_iff sep_not_letter)

lemma skip_colons:
  "list_all (\<lambda>c. c = CHR '':'') u \<Longrightarrow> 97 \<le> code a \<Longrightarrow> code a \<le> 122 \<Longrightarrow>
     sublist (a # bs) (u @ v) = sublist (a # bs) v"
  by (rule skip_seps) (simp_all add: list_all_iff sep_not_letter)

lemma skip_digits_end:
  "list_all is_digit u \<Longrightarrow> 97 \<le> code a \<Longrightarrow> code a \<le> 122 \<Longrightarrow> \<not> sublist (a # bs) u"
  using skip_digits [of u a bs "[]"] by simp

lemma prefix_spaces:
  assumes "list_all is_space u" "97 \<le> code a" "code a \<le> 122"
  shows "prefix (a # bs) (u @ v) = (u = [] \<and> prefix (a # bs) v)"
proof (cases u)
  case Nil
  then show ?thesis by simp
next
  case (Cons c t)
  with assms(1) have "is_space c" by simp
  then have "code c < 97 \<or> 122 < code c" by (rule sep_not_letter)
  with assms(2,3) have "c \<noteq> a" by auto
  with Cons show ?thesis by simp
qed

lemmas skips = skip_spaces skip_digits skip_colons skip_digits_end prefix_spaces
  sublist_Cons_right code_def

lemma arrival_inner:
  assumes "kw = ''arrived'' \<or> kw = ''came''" "list_all is_space sp1" "list_all is_space sp2"
    "list_all is_digit d1" "list_all is_digit d2"
  shows "\<not> sublist ''ar'' (tl (kw @ sp1 @ ''at'' @ sp2 @ d1 @ '':'' @ d2))"
    and "\<not> sublist ''ca'' (tl (kw @ sp1 @ ''at'' @ sp2 @ d1 @ '':'' @ d2))"
  using assms by (auto simp: skips)

lemma departure_inner:
  assumes "kw = ''left'' \<or> kw = ''departed''" "list_all is_space sp1" "list_all is_space sp2"
    "list_all is_digit d1" "list_all is_digit d2"
  shows "\<not> sublist ''le'' (tl (kw @ sp1 @ ''at'' @ sp2 @ d1 @ '':'' @ d2))"
    and "\<not> sublist ''de'' (tl (kw @ sp1 @ ''at'' @ sp2 @ d1 @ '':'' @ d2))"
  using assms by (auto simp: skips)

lemma mark_inner:
  assumes "list_all is_space sp1" "list_all (\<lambda>c. c = CHR '':'') col" "list_all is_space sp2"
    "list_all is_digit d"
  shows "\<not> sublist ''mu'' (tl (''muhammad'' @ sp1 @ col @ sp2 @ d))"
    and "\<not> sublist ''ab'' (tl (''abubakar'' @ sp1 @ col @ sp2 @ d))"
    and "\<not> sublist ''ha'' (tl (''hafsa'' @ sp1 @ col @ sp2 @ d))"
  using assms by (auto simp: skips)

section \<open>Matches do not overlap\<close>

lemma time_ne:
  assumes r: "r = Seq (Alt (Lit k1) (Lit k2))
       (Seq (some_of is_space) (Seq (Lit ''at'') (Seq (some_of is_space) hhmm)))"
    and m: "(c, rest) \<in> set (rx_match r s)"
  shows "length rest < length s"
  using time_shape [OF r m] by auto

lemma time_no:
  assumes r: "r = Seq (Alt (Lit k1) (Lit k2))
       (Seq (some_of is_space) (Seq (Lit ''at'') (Seq (some_of is_space) hhmm)))"
    and ks: "k1 = a1 # b1 # t1" "k2 = a2 # b2 # t2"
    and nd: "\<not> is_digit a1" "\<not> is_digit a2"
    and inner: "\<And>kw sp1 sp2 d1 d2. kw = k1 \<or> kw = k2 \<Longrightarrow> list_all is_space sp1 \<Longrightarrow>
        list_all is_space sp2 \<Longrightarrow> list_all is_digit d1 \<Longrightarrow> list_all is_digit d2 \<Longrightarrow>
        \<not> sublist [a1, b1] (tl (kw @ sp1 @ ''at'' @ sp2 @ d1 @ '':'' @ d2))
        \<and> \<not> sublist [a2, b2] (tl (kw @ sp1 @ ''at'' @ sp2 @ d1 @ '':'' @ d2))"
    and m: "(c, rest) \<in> set (rx_match r s)" "0 < j" "j < length s - length rest"
  shows "rx_match r (drop j s) = []"
proof (rule ccontr)
  assume "rx_match r (drop j s) \<noteq> []"
  then obtain c' rest' where m': "(c', rest') \<in> set (rx_match r (drop j s))"
    by (cases "rx_match r (drop j s)") auto
  from time_shape [OF r m(1)] obtain kw sp1 sp2 d1 d2 where
    s: "s = kw @ sp1 @ ''at'' @ sp2 @ d1 @ '':'' @ d2 @ rest"
    and kw: "kw = k1 \<or> kw = k2"
    and sh: "list_all is_space sp1" "list_all is_space sp2" "list_all is_digit d1"
      "length d2 = 2" "list_all is_digit d2"
    by blast
  define w where "w = kw @ sp1 @ ''at'' @ sp2 @ d1 @ '':'' @ d2"
  have sw: "s = w @ rest" using s by (simp add: w_def)
  have jw: "j < length w" using m(3) sw by simp
  from time_shape [OF r m'] obtain kw' t' where d: "drop j s = kw' @ t'" "kw' = k1 \<or> kw' = k2"
    by blast
  then obtain x y u where xy: "drop j (w @ rest) = x # y # u"
    and st: "(x = a1 \<and> y = b1) \<or> (x = a2 \<and> y = b2)"
    using ks sw by auto
  from inner_start [OF m(2) jw xy] have "last w = x \<or> sublist [x, y] (tl w)" .
  moreover have "is_digit (last w)"
  proof -
    from sh(4) have ne: "d2 \<noteq> []" by auto
    then have "last w = last d2" by (simp add: w_def)
    moreover from ne sh(5) have "is_digit (last d2)" by (simp add: list_all_iff)
    ultimately show ?thesis by simp
  qed
  moreover from inner [OF kw sh(1,2,3,5)]
  have "\<not> sublist [a1, b1] (tl w)" "\<not> sublist [a2, b2] (tl w)" by (simp_all add: w_def)
  ultimately show False using st nd by auto
qed

lemma arrival_ne: "(c, rest) \<in> set (rx_match arrival_re s) \<Longrightarrow> length rest < length s"
  by (rule time_ne [OF arrival_re_def])

lemma departure_ne: "(c, rest) \<in> set (rx_match departure_re s) \<Longrightarrow> length rest < length s"
  by (rule time_ne [OF departure_re_def])

lemma arrival_no:
  "(c, rest) \<in> set (rx_match arrival_re s) \<Longrightarrow> 0 < j \<Longrightarrow> j < length s - length rest \<Longrightarrow>
     rx_match arrival_re (drop j s) = []"
proof (rule time_no [OF arrival_re_def, where ?a1.0 = "CHR ''a''" and ?b1.0 = "CHR ''r''"
      and ?a2.0 = "CHR ''c''" and ?b2.0 = "CHR ''a''"])
  show "''arrived'' = CHR ''a'' # CHR ''r'' # ''rived''" by simp
  show "''came'' = CHR ''c'' # CHR ''a'' # ''me''" by simp
  show "\<not> is_digit CHR ''a''" "\<not> is_digit CHR ''c''" by (simp_all add: cls_defs)
  show "\<not> sublist ''ar'' (tl (kw @ sp1 @ ''at'' @ sp2 @ d1 @ '':'' @ d2))
        \<and> \<not> sublist ''ca'' (tl (kw @ sp1 @ ''at'' @ sp2 @ d1 @ '':'' @ d2))"
    if "kw = ''arrived'' \<or> kw = ''came''" "list_all is_space sp1" "list_all is_space sp2"
      "list_all is_digit d1" "list_all is_digit d2" for kw sp1 sp2 d1 d2
    using arrival_inner [OF that] by simp
qed

lemma departure_no:
  "(c, rest) \<in> set (rx_match departure_re s) \<Longrightarrow> 0 < j \<Longrightarrow> j < length s - length rest \<Longrightarrow>
     rx_match departure_re (drop j s) = []"
proof (rule time_no [OF departure_re_def, where ?a1.0 = "CHR ''l''" and ?b1.0 = "CHR ''e''"
      and ?a2.0 = "CHR ''d''" and ?b2.0 = "CHR ''e''"])
  show "''left'' = CHR ''l'' # CHR ''e'' # ''ft''" by simp
  show "''departed'' = CHR ''d'' # CHR ''e'' # ''parted''" by simp
  show "\<not> is_digit CHR ''l''" "\<not> is_digit CHR ''d''" by (simp_all add: cls_defs)
  show "\<not> sublist ''le'' (tl (kw @ sp1 @ ''at'' @ sp2 @ d1 @ '':'' @ d2))
        \<and> \<not> sublist ''de'' (tl (kw @ sp1 @ ''at'' @ sp2 @ d1 @ '':'' @ d2))"
    if "kw = ''left'' \<or> kw = ''departed''" "list_all is_space sp1" "list_all is_space sp2"
      "list_all is_digit d1" "list_all is_digit d2" for kw sp1 sp2 d1 d2
    using departure_inner [OF that] by simp
qed

section \<open>The last match of a scan\<close>

lemma last_wins:
  assumes ne: "\<And>s c rest. (c, rest) \<in> set (rx_match r s) \<Longrightarrow> length rest < length s"
    and no: "\<And>s c rest j. (c, rest) \<in> set (rx_match r s) \<Longrightarrow> 0 < j \<Longrightarrow>
               j < length s - length rest \<Longrightarrow> rx_match r (drop j s) = []"
    and first: "first_match r t = Some (cap, post)"
  shows "\<exists>ms. findall r (pre @ t) = ms @ group1 cap # findall r post"
proof -
  from first have mem: "(cap, post) \<in> set (rx_match r t)" by (rule first_match_mem)
  then have some: "rx_match r t \<noteq> []" by auto
  have "\<exists>ms. findall r (pre @ t) = ms @ findall r t"
  proof (rule scan_split)
    show "length rest < length s" if "(c, rest) \<in> set (rx_match r s)" for s c rest
      using that by (rule ne)
    show "rx_match r (drop j s) = []"
      if "(c, rest) \<in> set (rx_match r s)" "0 < j" "j < length s - length rest" for s c rest j
      using that by (rule no)
    show "rx_match r t \<noteq> []" by (rule some)
  qed
  then obtain ms where "findall r (pre @ t) = ms @ findall r t" by blast
  moreover from first ne [OF mem] have "findall r t = group1 cap # findall r post"
    by (rule findall_first)
  ultimately show ?thesis by auto
qed

lemma findall_elem:
  "x \<in> set (findall r s) \<Longrightarrow>
     \<exists>t c rest. suffix t s \<and> (c, rest) \<in> set (rx_match r t) \<and> x = group1 c"
proof (induction r s rule: findall.induct)
  case (1 r s)
  show ?case
  proof (cases "rx_match r s")
    case Nil
    show ?thesis
    proof (cases s)
      case Nil
      with \<open>rx_match r s = []\<close> 1(4) show ?thesis by (simp add: findall.simps)
    next
      case (Cons a t)
      with \<open>rx_match r s = []\<close> 1(4) have "x \<in> set (findall r t)" by (simp add: findall.simps)
      from 1(1) [OF \<open>rx_match r s = []\<close> Cons this] obtain u c rest where
        "suffix u t" "(c, rest) \<in> set (rx_match r u)" "x = group1 c" by blast
      with Cons show ?thesis by (auto intro: suffix_ConsI)
    qed
  next
    case (Cons m other)
    obtain cap rest where m: "m = (cap, rest)" by (cases m)
    with Cons have mem: "(cap, rest) \<in> set (rx_match r s)" by simp
    show ?thesis
    proof (cases "x = group1 cap")
      case True
      with mem show ?thesis by (intro exI[of _ s] exI[of _ cap] exI[of _ rest]) simp
    next
      case False
      show ?thesis
      proof (cases "length rest < length s")
        case True
        with Cons m 1(4) False have "x \<in> set (findall r rest)" by (simp add: findall.simps)
        from 1(2) [OF Cons m [symmetric] True this] obtain u c rest' where
          u: "suffix u rest" "(c, rest') \<in> set (rx_match r u)" "x = group1 c" by blast
        from match_rest_suffix [OF mem] have "suffix rest s" by (auto simp: suffix_def)
        with u(1) have "suffix u s" by (rule suffix_order.trans)
        with u show ?thesis by blast
      next
        case long: False
        show ?thesis
        proof (cases s)
          case Nil
          with Cons m 1(4) False long show ?thesis by (simp add: findall.simps)
        next
          case (Cons a t)
          with \<open>rx_match r s = m # other\<close> m 1(4) False long
          have "x \<in> set (findall r t)" by (simp add: findall.simps)
          from 1(3) [OF \<open>rx_match r s = m # other\<close> m [symmetric] long Cons this]
          obtain u c rest' where
            "suffix u t" "(c, rest') \<in> set (rx_match r u)" "x = group1 c" by blast
          with Cons show ?thesis by (auto intro: suffix_ConsI)
        qed
      qed
    qed
  qed
qed

section \<open>Marks\<close>

lemma digits_shape:
  "(c, r) \<in> set (rx_match (Grp (Rep is_digit 1 (Some 2))) s) \<longleftrightarrow>
     (\<exists>d. s = d @ r \<and> d \<noteq> [] \<and> length d \<le> 2 \<and> list_all is_digit d \<and> c = Some d)"
  (is "?L \<longleftrightarrow> ?R")
proof
  assume ?L
  then obtain c' where c: "c = Some (take (length s - length r) s)"
    and m: "(c', r) \<in> set (rx_match (Rep is_digit 1 (Some 2)) s)"
    unfolding in_match_Grp by blast
  from m obtain d where d: "s = d @ r" "\<forall>x \<in> set d. is_digit x" "1 \<le> length d" "length d \<le> 2"
    unfolding in_match_Rep by auto
  from d(1) have "take (length s - length r) s = d" by simp
  with c d show ?R by (intro exI[of _ d]) (auto simp: list_all_iff)
next
  assume ?R
  then obtain d where d: "s = d @ r" "d \<noteq> []" "length d \<le> 2" "list_all is_digit d"
    and c: "c = Some d" by blast
  have "(None, r) \<in> set (rx_match (Rep is_digit 1 (Some 2)) s)"
    unfolding in_match_Rep using d by (auto simp: list_all_iff Suc_le_eq)
  moreover have "take (length s - length r) s = d" using d(1) by simp
  ultimately show ?L unfolding in_match_Grp using c by (auto simp del: rx_match.simps)
qed

lemma mark_shape:
  assumes m: "(c, rest) \<in> set (rx_match (mark_re name) s)"
  shows "\<exists>sp1 col sp2 d. s = name @ sp1 @ col @ sp2 @ d @ rest
      \<and> list_all is_space sp1 \<and> list_all (\<lambda>c. c = CHR '':'') col \<and> list_all is_space sp2
      \<and> d \<noteq> [] \<and> length d \<le> 2 \<and> list_all is_digit d \<and> c = Some d"
proof -
  from m obtain c1 r1 c2 r2 c3 r3 c4 r4 c5 where
    1: "(c1, r1) \<in> set (rx_match (Lit name) s)"
    and 2: "(c2, r2) \<in> set (rx_match (Rep is_space 0 None) r1)"
    and 3: "(c3, r3) \<in> set (rx_match (Rep (\<lambda>c. c = CHR '':'') 0 None) r2)"
    and 4: "(c4, r4) \<in> set (rx_match (Rep is_space 0 None) r3)"
    and 5: "(c5, rest) \<in> set (rx_match (Grp (Rep is_digit 1 (Some 2))) r4)"
    and c: "c = later c1 (later c2 (later c3 (later c4 c5)))"
    unfolding mark_re_def any_of_def in_match_Seq by blast
  from 1 have s: "s = name @ r1" "c1 = None" unfolding in_match_Lit by simp_all
  from 2 obtain sp1 where sp1: "r1 = sp1 @ r2" "\<forall>x \<in> set sp1. is_space x" "c2 = None"
    unfolding in_match_Rep by auto
  from 3 obtain col where col: "r2 = col @ r3" "\<forall>x \<in> set col. x = CHR '':''" "c3 = None"
    unfolding in_match_Rep by auto
  from 4 obtain sp2 where sp2: "r3 = sp2 @ r4" "\<forall>x \<in> set sp2. is_space x" "c4 = None"
    unfolding in_match_Rep by auto
  from 5 obtain d where d: "r4 = d @ rest" "d \<noteq> []" "length d \<le> 2" "list_all is_digit d"
    "c5 = Some d" unfolding digits_shape by blast
  have "s = name @ sp1 @ col @ sp2 @ d @ rest" using s sp1 col sp2 d by simp
  moreover have "c = Some d" using c d(5) by simp
  ultimately show ?thesis
    using sp1(2) col(2) sp2(2) d(2-4)
    by (intro exI[of _ sp1] exI[of _ col] exI[of _ sp2] exI[of _ d]) (simp add: list_all_iff)
qed

lemma mark_ne: "(c, rest) \<in> set (rx_match (mark_re name) s) \<Longrightarrow> length rest < length s"
  using mark_shape [of c rest name s] by auto

lemma mark_no:
  assumes name: "name = a # b # t" and nd: "\<not> is_digit a"
    and inner: "\<And>sp1 col sp2 d. list_all is_space sp1 \<Longrightarrow> list_all (\<lambda>c. c = CHR '':'') col \<Longrightarrow>
        list_all is_space sp2 \<Longrightarrow> list_all is_digit d \<Longrightarrow>
        \<not> sublist [a, b] (tl (name @ sp1 @ col @ sp2 @ d))"
    and m: "(c, rest) \<in> set (rx_match (mark_re name) s)" "0 < j" "j < length s - length rest"
  shows "rx_match (mark_re name) (drop j s) = []"
proof (rule ccontr)
  assume "rx_match (mark_re name) (drop j s) \<noteq> []"
  then obtain c' rest' where m': "(c', rest') \<in> set (rx_match (mark_re name) (drop j s))"
    by (cases "rx_match (mark_re name) (drop j s)") auto
  from mark_shape [OF m(1)] obtain sp1 col sp2 d where
    s: "s = name @ sp1 @ col @ sp2 @ d @ rest"
    and sh: "list_all is_space sp1" "list_all (\<lambda>c. c = CHR '':'') col" "list_all is_space sp2"
      "list_all is_digit d" "d \<noteq> []"
    by blast
  define w where "w = name @ sp1 @ col @ sp2 @ d"
  have sw: "s = w @ rest" using s by (simp add: w_def)
  have jw: "j < length w" using m(3) sw by simp
  from mark_shape [OF m'] obtain t' where "drop j s = name @ t'" by blast
  then have xy: "drop j (w @ rest) = a # b # (t @ t')" using name sw by simp
  from inner_start [OF m(2) jw xy] have "last w = a \<or> sublist [a, b] (tl w)" .
  moreover have "is_digit (last w)"
  proof -
    from sh(5) have "last w = last d" by (simp add: w_def)
    moreover from sh(4,5) have "is_digit (last d)" by (simp add: list_all_iff)
    ultimately show ?thesis by simp
  qed
  moreover from inner [OF sh(1-4)] have "\<not> sublist [a, b] (tl w)" by (simp add: w_def)
  ultimately show False using nd by auto
qed

lemma child_no:
  assumes "name = ''muhammad'' \<or> name = ''abubakar'' \<or> name = ''hafsa''"
    and m: "(c, rest) \<in> set (rx_match (mark_re name) s)" "0 < j" "j < length s - length rest"
  shows "rx_match (mark_re name) (drop j s) = []"
proof -
  from assms(1) consider "name = ''muhammad''" | "name = ''abubakar''" | "name = ''hafsa''"
    by blast
  then show ?thesis
  proof cases
    case 1
    show ?thesis
    proof (rule mark_no [OF _ _ _ m, where a = "CHR ''m''" and b = "CHR ''u''" and t = "''hammad''"])
      show "name = CHR ''m'' # CHR ''u'' # ''hammad''" using 1 by simp
      show "\<not> is_digit CHR ''m''" by (simp add: cls_defs)
      show "\<not> sublist ''mu'' (tl (name @ sp1 @ col @ sp2 @ d))"
        if "list_all is_space sp1" "list_all (\<lambda>c. c = CHR '':'') col" "list_all is_space sp2"
          "list_all is_digit d" for sp1 col sp2 d
        using mark_inner(1) [OF that] 1 by simp
    qed
  next
    case 2
    show ?thesis
    proof (rule mark_no [OF _ _ _ m, where a = "CHR ''a''" and b = "CHR ''b''" and t = "''ubakar''"])
      show "name = CHR ''a'' # CHR ''b'' # ''ubakar''" using 2 by simp
      show "\<not> is_digit CHR ''a''" by (simp add: cls_defs)
      show "\<not> sublist ''ab'' (tl (name @ sp1 @ col @ sp2 @ d))"
        if "list_all is_space sp1" "list_all (\<lambda>c. c = CHR '':'') col" "list_all is_space sp2"
          "list_all is_digit d" for sp1 col sp2 d
        using mark_inner(2) [OF that] 2 by simp
    qed
  next
    case 3
    show ?thesis
    proof (rule mark_no [OF _ _ _ m, where a = "CHR ''h''" and b = "CHR ''a''" and t = "''fsa''"])
      show "name = CHR ''h'' # CHR ''a'' # ''fsa''" using 3 by simp
      show "\<not> is_digit CHR ''h''" by (simp add: cls_defs)
      show "\<not> sublist ''ha'' (tl (name @ sp1 @ col @ sp2 @ d))"
        if "list_all is_space sp1" "list_all (\<lambda>c. c = CHR '':'') col" "list_all is_space sp2"
          "list_all is_digit d" for sp1 col sp2 d
        using mark_inner(3) [OF that] 3 by simp
    qed
  qed
qed

lemma mark_first:
  assumes sp: "list_all is_space sp1" "list_all (\<lambda>c. c = CHR '':'') col" "list_all is_space sp2"
    and d: "d \<noteq> []" "length d \<le> 2" "list_all is_digit d"
    and stop: "length d = 2 \<or> post = [] \<or> \<not> is_digit (hd post)"
  shows "first_match (mark_re name) (name @ sp1 @ col @ sp2 @ d @ post) = Some (Some d, post)"
proof -
  have dg: "\<not> is_space (hd d)" "hd d \<noteq> CHR '':''"
    using d(1,3) by (cases d; auto simp: cls_defs)+
  have cs: "\<not> is_space (CHR '':'')" by (simp add: cls_defs)
  have 5: "first_match (Grp (Rep is_digit 1 (Some 2))) (d @ post) = Some (Some d, post)"
  proof (rule first_Grp, rule first_Rep_upto)
    show "\<forall>x \<in> set d. is_digit x" using d(3) by (simp add: list_all_iff)
    show "length d = 2 \<or> (length d < 2 \<and> (post = [] \<or> \<not> is_digit (hd post)))"
      using stop d(2) by auto
    show "1 \<le> length d" using d(1) by (simp add: Suc_le_eq)
  qed
  have 1: "first_match (Lit name) (name @ sp1 @ col @ sp2 @ d @ post)
      = Some (None, sp1 @ col @ sp2 @ d @ post)" by (rule first_Lit)
  have rest: "first_match (Seq (Rep is_space 0 None) (Seq (Rep (\<lambda>c. c = CHR '':'') 0 None)
      (Seq (Rep is_space 0 None) (Grp (Rep is_digit 1 (Some 2))))))
      (sp1 @ col @ sp2 @ d @ post) = Some (Some d, post)"
  proof (cases "col = []")
    case True
    have e: "d @ post = [] \<or> \<not> is_space (hd (d @ post))"
      "d @ post = [] \<or> \<not> hd (d @ post) = CHR '':''"
      using d(1) dg by auto
    have "first_match (Rep is_space 0 None) ((sp1 @ sp2) @ d @ post) = Some (None, d @ post)"
      using sp(1,3) e(1) by (intro first_Rep_run) (auto simp: list_all_iff)
    then have 2: "first_match (Rep is_space 0 None) (sp1 @ sp2 @ d @ post)
        = Some (None, d @ post)" by simp
    have "first_match (Rep (\<lambda>c. c = CHR '':'') 0 None) ([] @ d @ post) = Some (None, d @ post)"
      using e(2) by (intro first_Rep_run) auto
    then have 3: "first_match (Rep (\<lambda>c. c = CHR '':'') 0 None) (d @ post)
        = Some (None, d @ post)" by simp
    have "first_match (Rep is_space 0 None) ([] @ d @ post) = Some (None, d @ post)"
      using e(1) by (intro first_Rep_run) auto
    then have 4: "first_match (Rep is_space 0 None) (d @ post) = Some (None, d @ post)"
      by simp
    note 45 = first_Seq [OF 4 5]
    note 345 = first_Seq [OF 3 45]
    from first_Seq [OF 2 345] True show ?thesis by simp
  next
    case False
    then have hc: "hd (col @ sp2 @ d @ post) = CHR '':''" using sp(2) by (cases col) auto
    have h2: "hd (sp2 @ d @ post) \<noteq> CHR '':''"
      using sp(3) d(1) dg cs by (cases sp2) auto
    have 2: "first_match (Rep is_space 0 None) (sp1 @ col @ sp2 @ d @ post)
        = Some (None, col @ sp2 @ d @ post)"
      using sp(1) hc cs by (intro first_Rep_run) (auto simp: list_all_iff)
    have 3: "first_match (Rep (\<lambda>c. c = CHR '':'') 0 None) (col @ sp2 @ d @ post)
        = Some (None, sp2 @ d @ post)"
      using sp(2) h2 by (intro first_Rep_run) (auto simp: list_all_iff)
    have 4: "first_match (Rep is_space 0 None) (sp2 @ d @ post) = Some (None, d @ post)"
      using sp(3) d(1) dg by (intro first_Rep_run) (auto simp: list_all_iff)
    note 45 = first_Seq [OF 4 5]
    note 345 = first_Seq [OF 3 45]
    from first_Seq [OF 2 345] show ?thesis by simp
  qed
  from first_Seq [OF 1 rest] show ?thesis by (simp add: mark_re_def any_of_def)
qed

section \<open>Scans of the program's patterns\<close>

lemma search_first:
  "k \<le> length s \<Longrightarrow> \<forall>j<k. first_match r (drop j s) = None \<Longrightarrow>
     first_match r (drop k s) = Some (cap, rest) \<Longrightarrow> search r s = Some (group1 cap)"
proof (induction k arbitrary: s)
  case 0
  then show ?case by (cases s) (auto simp: first_match_def split: list.splits)
next
  case (Suc k)
  then obtain c t where s: "s = c # t" by (cases s) auto
  from Suc.prems(2) have "first_match r (drop 0 s) = None" by blast
  then have none: "rx_match r (c # t) = []" using s by (simp add: first_match_None)
  have a: "\<forall>j<k. first_match r (drop j t) = None"
  proof (intro allI impI)
    fix j assume "j < k"
    then have "Suc j < Suc k" by simp
    with Suc.prems(2) have "first_match r (drop (Suc j) s) = None" by blast
    then show "first_match r (drop j t) = None" using s by simp
  qed
  have b: "k \<le> length t" using Suc.prems(1) s by simp
  have c: "first_match r (drop k t) = Some (cap, rest)" using Suc.prems(3) s by simp
  from b a c have "search r t = Some (group1 cap)" by (rule Suc.IH)
  with none s show ?case by simp
qed

lemma arrival_kw:
  "kw = ''arrived'' \<or> kw = ''came'' \<Longrightarrow>
     first_match (Alt (Lit ''arrived'') (Lit ''came'')) (kw @ t) = Some (None, t)"
  by (auto simp: first_match_def)

lemma departure_kw:
  "kw = ''left'' \<or> kw = ''departed'' \<Longrightarrow>
     first_match (Alt (Lit ''left'') (Lit ''departed'')) (kw @ t) = Some (None, t)"
  by (auto simp: first_match_def)

lemma arrival_scan:
  assumes "kw = ''arrived'' \<or> kw = ''came''"
    and "sp1 \<noteq> []" "list_all is_space sp1" "sp2 \<noteq> []" "list_all is_space sp2"
    and "d1 \<noteq> []" "length d1 \<le> 2" "list_all is_digit d1" "length d2 = 2" "list_all is_digit d2"
  shows "\<exists>ms. findall arrival_re (pre @ kw @ sp1 @ ''at'' @ sp2 @ d1 @ '':'' @ d2 @ post)
      = ms @ (d1 @ '':'' @ d2) # findall arrival_re post"
proof -
  have "first_match arrival_re (kw @ sp1 @ ''at'' @ sp2 @ d1 @ '':'' @ d2 @ post)
      = Some (Some (d1 @ '':'' @ d2), post)"
    using arrival_re_def arrival_kw [OF assms(1)] assms(2-) by (rule time_first)
  from last_wins [of arrival_re, OF arrival_ne arrival_no this]
  show ?thesis by (simp add: group1_def)
qed

lemma departure_scan:
  assumes "kw = ''left'' \<or> kw = ''departed''"
    and "sp1 \<noteq> []" "list_all is_space sp1" "sp2 \<noteq> []" "list_all is_space sp2"
    and "d1 \<noteq> []" "length d1 \<le> 2" "list_all is_digit d1" "length d2 = 2" "list_all is_digit d2"
  shows "\<exists>ms. findall departure_re (pre @ kw @ sp1 @ ''at'' @ sp2 @ d1 @ '':'' @ d2 @ post)
      = ms @ (d1 @ '':'' @ d2) # findall departure_re post"
proof -
  have "first_match departure_re (kw @ sp1 @ ''at'' @ sp2 @ d1 @ '':'' @ d2 @ post)
      = Some (Some (d1 @ '':'' @ d2), post)"
    using departure_re_def departure_kw [OF assms(1)] assms(2-) by (rule time_first)
  from last_wins [of departure_re, OF departure_ne departure_no this]
  show ?thesis by (simp add: group1_def)
qed

lemma time_elem:
  assumes r: "r = Seq (Alt (Lit k1) (Lit k2))
       (Seq (some_of is_space) (Seq (Lit ''at'') (Seq (some_of is_space) hhmm)))"
    and x: "x \<in> set (findall r s)"
  shows "\<exists>d1 d2. x = d1 @ '':'' @ d2 \<and> d1 \<noteq> [] \<and> length d1 \<le> 2 \<and> list_all is_digit d1
      \<and> length d2 = 2 \<and> list_all is_digit d2 \<and> sublist (d1 @ '':'' @ d2) s"
proof -
  from findall_elem [OF x] obtain t c rest where t: "suffix t s"
    and m: "(c, rest) \<in> set (rx_match r t)" and xc: "x = group1 c" by blast
  from time_shape [OF r m] obtain kw sp1 sp2 d1 d2 where
    sh: "t = kw @ sp1 @ ''at'' @ sp2 @ d1 @ '':'' @ d2 @ rest"
      "d1 \<noteq> []" "length d1 \<le> 2" "list_all is_digit d1" "length d2 = 2" "list_all is_digit d2"
      "c = Some (d1 @ '':'' @ d2)" by blast
  from t obtain p where "s = p @ t" by (auto simp: suffix_def)
  with sh(1) have "s = (p @ kw @ sp1 @ ''at'' @ sp2) @ (d1 @ '':'' @ d2) @ rest" by simp
  then have "sublist (d1 @ '':'' @ d2) s" unfolding sublist_def by blast
  with sh xc show ?thesis by (auto simp: group1_def)
qed

lemma mark_scan:
  assumes "name = ''muhammad'' \<or> name = ''abubakar'' \<or> name = ''hafsa''"
    and "list_all is_space sp1" "list_all (\<lambda>c. c = CHR '':'') col" "list_all is_space sp2"
    and "d \<noteq> []" "length d \<le> 2" "list_all is_digit d"
    and "length d = 2 \<or> post = [] \<or> \<not> is_digit (hd post)"
  shows "\<exists>ms. findall (mark_re name) (pre @ name @ sp1 @ col @ sp2 @ d @ post)
      = ms @ d # findall (mark_re name) post"
proof -
  have first: "first_match (mark_re name) (name @ sp1 @ col @ sp2 @ d @ post) = Some (Some d, post)"
    using assms(2-) by (rule mark_first)
  have "\<exists>ms. findall (mark_re name) (pre @ name @ sp1 @ col @ sp2 @ d @ post)
      = ms @ group1 (Some d) # findall (mark_re name) post"
  proof (rule last_wins [OF _ _ first])
    show "length rest < length s" if "(c, rest) \<in> set (rx_match (mark_re name) s)" for s c rest
      using that by (rule mark_ne)
    show "rx_match (mark_re name) (drop j s) = []"
      if "(c, rest) \<in> set (rx_match (mark_re name) s)" "0 < j" "j < length s - length rest"
      for s c rest j
      using assms(1) that by (rule child_no)
  qed
  then show ?thesis by (simp add: group1_def)
qed

lemma mark_last:
  assumes "name = ''muhammad'' \<or> name = ''abubakar'' \<or> name = ''hafsa''"
    and "list_all is_space sp1" "list_all (\<lambda>c. c = CHR '':'') col" "list_all is_space sp2"
    and "d \<noteq> []" "length d \<le> 2" "list_all is_digit d"
    and "length d = 2 \<or> post = [] \<or> \<not> is_digit (hd post)"
    and "findall (mark_re name) post = []"
  shows "parse_mark (pre @ name @ sp1 @ col @ sp2 @ d @ post) name = Some d"
proof -
  from mark_scan [OF assms(1-8)] obtain ms where
    "findall (mark_re name) (pre @ name @ sp1 @ col @ sp2 @ d @ post)
      = ms @ d # findall (mark_re name) post" by blast
  with assms(9) show ?thesis by (simp add: parse_mark_def)
qed

section \<open>The claims\<close>

text \<open>
  C1: the list of missing fields is empty exactly when the date, the arrival, the
  departure and the topics are set and, on a Friday record, the three marks are set too;
  on a record whose Friday flag is false the marks do not change the list.
\<close>

theorem missing_fields_complete:
  "(find_missing_fields st = [] \<longleftrightarrow>
      date_str (ongoing_record st) \<noteq> None \<and> arrival (ongoing_record st) \<noteq> None \<and>
      departure (ongoing_record st) \<noteq> None \<and> topics (ongoing_record st) \<noteq> None \<and>
      (is_friday (ongoing_record st) \<longrightarrow>
         muhammad_marks (ongoing_record st) \<noteq> None \<and>
         abubakar_marks (ongoing_record st) \<noteq> None \<and>
         hafsa_marks (ongoing_record st) \<noteq> None))
   \<and> (\<not> is_friday (ongoing_record st) \<longrightarrow>
        find_missing_fields
          (st\<lparr>ongoing_record := (ongoing_record st)
             \<lparr>muhammad_marks := m, abubakar_marks := a, hafsa_marks := h\<rparr>\<rparr>)
        = find_missing_fields st)"
  by (simp add: find_missing_fields_def Let_def)

text \<open>A complete non-Friday record, with and without marks, and the same record on a Friday.\<close>

theorem missing_fields_complete_witness:
  "find_missing_fields st_plain = [] \<and>
   find_missing_fields (st_plain\<lparr>ongoing_record := (ongoing_record st_plain)
      \<lparr>muhammad_marks := Some ''18'', abubakar_marks := None, hafsa_marks := Some ''99''\<rparr>\<rparr>)
     = find_missing_fields st_plain \<and>
   find_missing_fields (st_plain\<lparr>ongoing_record := rec_plain\<lparr>is_friday := True\<rparr>\<rparr>)
     = [''muhammad_marks'', ''abubakar_marks'', ''hafsa_marks'']"
proof -
  have nf: "\<not> is_friday (ongoing_record st_plain)"
    by (simp add: st_plain_def rec_plain_def)
  have set: "date_str (ongoing_record st_plain) \<noteq> None \<and> arrival (ongoing_record st_plain) \<noteq> None \<and>
      departure (ongoing_record st_plain) \<noteq> None \<and> topics (ongoing_record st_plain) \<noteq> None"
    by (simp add: st_plain_def rec_plain_def)
  have a: "find_missing_fields st_plain = []"
    using missing_fields_complete [where st = st_plain] nf set by blast
  have b: "find_missing_fields (st_plain\<lparr>ongoing_record := (ongoing_record st_plain)
      \<lparr>muhammad_marks := Some ''18'', abubakar_marks := None, hafsa_marks := Some ''99''\<rparr>\<rparr>)
     = find_missing_fields st_plain"
    using missing_fields_complete
      [where st = st_plain and m = "Some ''18''" and a = None and h = "Some ''99''"] nf
    by blast
  have c: "find_missing_fields (st_plain\<lparr>ongoing_record := rec_plain\<lparr>is_friday := True\<rparr>\<rparr>)
     = [''muhammad_marks'', ''abubakar_marks'', ''hafsa_marks'']"
    by (simp add: find_missing_fields_def st_plain_def rec_plain_def)
  from a b c show ?thesis by blast
qed

text \<open>
  C2: finalization appends the ongoing record once to the store and resets the ongoing
  record to the empty one (every field \<open>None\<close>, Friday flag false), whatever the language
  model call does; when that call raises, the reply shown is the text
  \<open>Error calling Gemini: \<close> followed by the error, and finalization still returns.
\<close>

theorem finalize_appends_and_resets:
  "teacher_data (fst (finalize_record llm st)) = teacher_data st @ [ongoing_record st]
   \<and> ongoing_record (fst (finalize_record llm st)) = empty_record
   \<and> date_str empty_record = None \<and> arrival empty_record = None
   \<and> departure empty_record = None \<and> topics empty_record = None
   \<and> is_friday empty_record = False \<and> muhammad_marks empty_record = None
   \<and> abubakar_marks empty_record = None \<and> hafsa_marks empty_record = None
   \<and> (\<forall>e. llm (prompt_of (ongoing_record st)) = Inl e \<longrightarrow>
        snd (finalize_record llm st) =
          [Success ''All required data collected!'',
           Info (''**Gemini**: Error calling Gemini: '' @ e)])"
  by (simp add: finalize_record_def Let_def empty_record_def)

text \<open>Finalizing while the language model is down.\<close>

theorem finalize_appends_and_resets_witness:
  "teacher_data (fst (finalize_record llm_down st_plain)) = [rec_plain]
   \<and> ongoing_record (fst (finalize_record llm_down st_plain)) = empty_record
   \<and> snd (finalize_record llm_down st_plain) =
        [Success ''All required data collected!'',
         Info ''**Gemini**: Error calling Gemini: 503 unavailable'']"
proof -
  have raised: "llm_down (prompt_of (ongoing_record st_plain)) = Inl ''503 unavailable''"
    by (simp add: llm_down_def)
  from finalize_appends_and_resets [of llm_down st_plain] raised
  show ?thesis by (simp add: st_plain_def)
qed

text \<open>
  C3: the candidates are the groups found by the date pattern, in the order found. The
  first candidate that the date parser accepts is stored, whatever date the record had;
  if none is accepted, a record without a date gets today's date and a record with a
  date keeps it.
\<close>

theorem date_extraction:
  "(\<forall>i d. i < length (findall date_re text)
        \<and> dp (strip (findall date_re text ! i)) = Some d
        \<and> (\<forall>j < i. dp (strip (findall date_re text ! j)) = None)
      \<longrightarrow> date_str (ongoing_record (parse_user_text dp today text st)) = Some (str_date d))
   \<and> ((\<forall>c \<in> set (findall date_re text). dp (strip c) = None)
        \<and> date_str (ongoing_record st) = None
      \<longrightarrow> date_str (ongoing_record (parse_user_text dp today text st)) = Some (str_date today))
   \<and> ((\<forall>c \<in> set (findall date_re text). dp (strip c) = None)
        \<and> date_str (ongoing_record st) \<noteq> None
      \<longrightarrow> date_str (ongoing_record (parse_user_text dp today text st))
            = date_str (ongoing_record st))"
proof (intro conjI allI impI)
  fix i d
  assume "i < length (findall date_re text)
        \<and> dp (strip (findall date_re text ! i)) = Some d
        \<and> (\<forall>j < i. dp (strip (findall date_re text ! j)) = None)"
  then have "first_parsed dp (findall date_re text) = Some d"
    unfolding first_parsed_Some_iff by blast
  then show "date_str (ongoing_record (parse_user_text dp today text st)) = Some (str_date d)"
    by (simp add: parse_date_str)
next
  assume "(\<forall>c \<in> set (findall date_re text). dp (strip c) = None)
        \<and> date_str (ongoing_record st) = None"
  then have "first_parsed dp (findall date_re text) = None" "date_str (ongoing_record st) = None"
    unfolding first_parsed_None_iff by blast+
  then show "date_str (ongoing_record (parse_user_text dp today text st)) = Some (str_date today)"
    by (simp add: parse_date_str)
next
  assume "(\<forall>c \<in> set (findall date_re text). dp (strip c) = None)
        \<and> date_str (ongoing_record st) \<noteq> None"
  then have "first_parsed dp (findall date_re text) = None" "date_str (ongoing_record st) \<noteq> None"
    unfolding first_parsed_None_iff by blast+
  then show "date_str (ongoing_record (parse_user_text dp today text st))
            = date_str (ongoing_record st)"
    by (simp add: parse_date_str)
qed

text \<open>A text with two candidates of which the first is refused and the second parsed, on
  a record that has a date; a text whose two candidates both parse; and the first text
  again with a parser that refuses both candidates, on a record without a date and on a
  record with one.\<close>

theorem date_extraction_witness:
  "findall date_re ''trip on holiday. Report for 5 March 987'' = [''holiday'', ''5 March 987'']
   \<and> dp_two (strip ''holiday'') = None
   \<and> date_str (ongoing_record (parse_user_text dp_two a_day
        ''trip on holiday. Report for 5 March 987'' st_dated)) = Some ''0987-03-05''
   \<and> findall date_re ''AI for January 10th  . Exam on 5 March 987'' = [''January 10th  '', ''5 March 987'']
   \<and> date_str (ongoing_record (parse_user_text dp_two a_day
        ''AI for January 10th  . Exam on 5 March 987'' st_dated)) = Some ''2025-01-10''
   \<and> date_str (ongoing_record (parse_user_text dp_jan a_day
        ''trip on holiday. Report for 5 March 987'' initial_session)) = Some ''2025-02-11''
   \<and> date_str (ongoing_record (parse_user_text dp_jan a_day
        ''trip on holiday. Report for 5 March 987'' st_dated)) = Some ''2024-12-31''"
proof -
  let ?t = "''trip on holiday. Report for 5 March 987''"
  let ?u = "''AI for January 10th  . Exam on 5 March 987''"
  have c1: "findall date_re ?t = [''holiday'', ''5 March 987'']"
    by (simp add: findall.simps cls_defs chr_defs rx_defs)
  have c2: "findall date_re ?u = [''January 10th  '', ''5 March 987'']"
    by (simp add: findall.simps cls_defs chr_defs rx_defs)
  have h: "strip ''holiday'' = ''holiday''" "strip ''5 March 987'' = ''5 March 987''"
    "strip ''January 10th  '' = ''January 10th''"
    by (simp_all add: strip_def cls_defs)
  have p0: "dp_two (strip ''holiday'') = None"
    and p1: "dp_two (strip ''5 March 987'') = Some \<lparr>year = 987, month = 3, day = 5\<rparr>"
    and p2: "dp_two (strip ''January 10th  '') = Some \<lparr>year = 2025, month = 1, day = 10\<rparr>"
    and q0: "dp_jan (strip ''holiday'') = None"
    and q1: "dp_jan (strip ''5 March 987'') = None"
    by (simp_all add: h dp_two_def dp_jan_def)
  have s0: "str_date a_day = ''2025-02-11''"
    by (simp add: a_day_def date_defs)
  have s1: "str_date \<lparr>year = 987, month = 3, day = 5\<rparr> = ''0987-03-05''"
    by (simp add: date_defs)
  have s2: "str_date \<lparr>year = 2025, month = 1, day = 10\<rparr> = ''2025-01-10''"
    by (simp add: date_defs)
  have none: "date_str (ongoing_record initial_session) = None"
    by (simp add: initial_session_def empty_record_def)
  have dated: "date_str (ongoing_record st_dated) = Some ''2024-12-31''"
    by (simp add: st_dated_def rec_dated_def)
  have lt: "(\<forall>j<Suc 0. P j) = P 0" for P by simp
  have second: "date_str (ongoing_record (parse_user_text dp_two a_day ?t st_dated))
      = Some (str_date \<lparr>year = 987, month = 3, day = 5\<rparr>)"
    using date_extraction [of ?t dp_two a_day st_dated, THEN conjunct1, rule_format,
        of 1 "\<lparr>year = 987, month = 3, day = 5\<rparr>"] c1 p0 p1
    by simp
  have first: "date_str (ongoing_record (parse_user_text dp_two a_day ?u st_dated))
      = Some (str_date \<lparr>year = 2025, month = 1, day = 10\<rparr>)"
    using date_extraction [of ?u dp_two a_day st_dated, THEN conjunct1, rule_format,
        of 0 "\<lparr>year = 2025, month = 1, day = 10\<rparr>"] c2 p2
    by simp
  have dflt: "date_str (ongoing_record (parse_user_text dp_jan a_day ?t initial_session))
      = Some (str_date a_day)"
    using date_extraction [of ?t dp_jan a_day initial_session] c1 q0 q1 none
    by simp
  have kept: "date_str (ongoing_record (parse_user_text dp_jan a_day ?t st_dated))
      = Some ''2024-12-31''"
    using date_extraction [of ?t dp_jan a_day st_dated] c1 q0 q1 dated
    by simp
  from c1 c2 p0 second first dflt kept s0 s1 s2 show ?thesis by simp
qed

text \<open>
  C4: a text that contains \<open>arrived at 10:40\<close> does not always get the arrival
  \<open>10:40\<close>: a later arrival phrase replaces it.
\<close>

theorem arrival_1040_counterexample:
  "\<not> (\<forall>text. sublist ''arrived at 10:40'' (lower text) \<longrightarrow>
        arrival (ongoing_record (parse_user_text dp_jan a_day text initial_session))
          = Some ''10:40'')"
proof
  let ?t = "''Arrived at 10:40, sorry, came at 11:00''"
  assume "\<forall>text. sublist ''arrived at 10:40'' (lower text) \<longrightarrow>
        arrival (ongoing_record (parse_user_text dp_jan a_day text initial_session))
          = Some ''10:40''"
  then have c: "sublist ''arrived at 10:40'' (lower ?t) \<longrightarrow>
        arrival (ongoing_record (parse_user_text dp_jan a_day ?t initial_session))
          = Some ''10:40''" by (rule spec)
  have l: "lower ?t = ''arrived at 10:40, sorry, came at 11:00''" by (simp add: chr_defs)
  have s: "sublist ''arrived at 10:40'' (lower ?t)" unfolding l by (simp add: sublist_code)
  have f: "findall arrival_re (lower ?t) = [''10:40'', ''11:00'']"
    unfolding l by (simp add: findall.simps cls_defs rx_defs)
  have "arrival (ongoing_record (parse_user_text dp_jan a_day ?t initial_session))
      = Some ''11:00''" by (simp add: parse_arrival f)
  with c s show False by simp
qed

text \<open>
  C4, as it holds: when the lower-cased text is some text, then \<open>arrived at 10:40\<close>, then
  the rest, the arrival stored is the last arrival phrase found in the rest, and
  \<open>10:40\<close> when none is found there.
\<close>

theorem arrival_1040_last:
  "lower text = pre @ ''arrived at 10:40'' @ post \<longrightarrow>
     arrival (ongoing_record (parse_user_text dp today text st))
       = Some (last (''10:40'' # findall arrival_re post))"
proof
  assume l: "lower text = pre @ ''arrived at 10:40'' @ post"
  have "\<exists>ms. findall arrival_re (pre @ ''arrived'' @ '' '' @ ''at'' @ '' '' @ ''10'' @ '':''
      @ ''40'' @ post) = ms @ (''10'' @ '':'' @ ''40'') # findall arrival_re post"
    by (rule arrival_scan) (simp_all add: cls_defs)
  with l obtain ms where "findall arrival_re (lower text) = ms @ ''10:40'' # findall arrival_re post"
    by auto
  then show "arrival (ongoing_record (parse_user_text dp today text st))
       = Some (last (''10:40'' # findall arrival_re post))"
    by (simp add: parse_arrival)
qed

text \<open>The phrase in upper case with nothing after it to find, and the phrase followed by
  another arrival.\<close>

theorem arrival_1040_last_witness:
  "arrival (ongoing_record (parse_user_text dp_jan a_day
      ''Came at 9:05. No, I ARRIVED AT 10:40 today'' st_plain)) = Some ''10:40''
   \<and> arrival (ongoing_record (parse_user_text dp_jan a_day
      ''Arrived at 10:40, sorry, came at 11:00'' initial_session)) = Some ''11:00''"
proof -
  let ?t = "''Came at 9:05. No, I ARRIVED AT 10:40 today''"
  let ?u = "''Arrived at 10:40, sorry, came at 11:00''"
  have l: "lower ?t = ''came at 9:05. no, i '' @ ''arrived at 10:40'' @ '' today''"
    by (simp add: chr_defs)
  have m: "lower ?u = '''' @ ''arrived at 10:40'' @ '', sorry, came at 11:00''"
    by (simp add: chr_defs)
  have f: "findall arrival_re '' today'' = []"
    by (simp add: findall.simps cls_defs rx_defs)
  have g: "findall arrival_re '', sorry, came at 11:00'' = [''11:00'']"
    by (simp add: findall.simps cls_defs rx_defs)
  have a: "arrival (ongoing_record (parse_user_text dp_jan a_day ?t st_plain)) = Some ''10:40''"
    using arrival_1040_last [of ?t "''came at 9:05. no, i ''" "'' today''" dp_jan a_day st_plain]
      l f by simp
  have b: "arrival (ongoing_record (parse_user_text dp_jan a_day ?u initial_session))
      = Some ''11:00''"
    using arrival_1040_last [of ?u "''''" "'', sorry, came at 11:00''" dp_jan a_day initial_session]
      m g by simp
  from a b show ?thesis by simp
qed

text \<open>
  C5: when the lower-cased text contains an arrival phrase (\<open>arrived\<close> or \<open>came\<close>, white
  space, \<open>at\<close>, white space, one or two digits, a colon and two digits) and no arrival
  phrase is found in the text after it, the arrival stored is the digit-colon-digit text
  of that phrase as it stands, whatever phrases were found before it and whatever the
  digits are; likewise for the departure with \<open>left\<close> or \<open>departed\<close>. Whenever a phrase is
  found at all, the value stored has that shape and occurs in the lower-cased text.
\<close>

theorem last_time_wins:
  "(lower text = pre @ kw @ sp1 @ ''at'' @ sp2 @ d1 @ '':'' @ d2 @ post
      \<and> (kw = ''arrived'' \<or> kw = ''came'')
      \<and> sp1 \<noteq> [] \<and> list_all is_space sp1 \<and> sp2 \<noteq> [] \<and> list_all is_space sp2
      \<and> d1 \<noteq> [] \<and> length d1 \<le> 2 \<and> list_all is_digit d1
      \<and> length d2 = 2 \<and> list_all is_digit d2
      \<and> findall arrival_re post = []
    \<longrightarrow> arrival (ongoing_record (parse_user_text dp today text st)) = Some (d1 @ '':'' @ d2))
   \<and> (lower text = pre @ kw @ sp1 @ ''at'' @ sp2 @ d1 @ '':'' @ d2 @ post
      \<and> (kw = ''left'' \<or> kw = ''departed'')
      \<and> sp1 \<noteq> [] \<and> list_all is_space sp1 \<and> sp2 \<noteq> [] \<and> list_all is_space sp2
      \<and> d1 \<noteq> [] \<and> length d1 \<le> 2 \<and> list_all is_digit d1
      \<and> length d2 = 2 \<and> list_all is_digit d2
      \<and> findall departure_re post = []
    \<longrightarrow> departure (ongoing_record (parse_user_text dp today text st)) = Some (d1 @ '':'' @ d2))
   \<and> (findall arrival_re (lower text) \<noteq> []
    \<longrightarrow> (\<exists>h m. arrival (ongoing_record (parse_user_text dp today text st)) = Some (h @ '':'' @ m)
          \<and> h \<noteq> [] \<and> length h \<le> 2 \<and> list_all is_digit h
          \<and> length m = 2 \<and> list_all is_digit m \<and> sublist (h @ '':'' @ m) (lower text)))
   \<and> (findall departure_re (lower text) \<noteq> []
    \<longrightarrow> (\<exists>h m. departure (ongoing_record (parse_user_text dp today text st)) = Some (h @ '':'' @ m)
          \<and> h \<noteq> [] \<and> length h \<le> 2 \<and> list_all is_digit h
          \<and> length m = 2 \<and> list_all is_digit m \<and> sublist (h @ '':'' @ m) (lower text)))"
proof (intro conjI impI)
  assume a: "lower text = pre @ kw @ sp1 @ ''at'' @ sp2 @ d1 @ '':'' @ d2 @ post
      \<and> (kw = ''arrived'' \<or> kw = ''came'')
      \<and> sp1 \<noteq> [] \<and> list_all is_space sp1 \<and> sp2 \<noteq> [] \<and> list_all is_space sp2
      \<and> d1 \<noteq> [] \<and> length d1 \<le> 2 \<and> list_all is_digit d1
      \<and> length d2 = 2 \<and> list_all is_digit d2
      \<and> findall arrival_re post = []"
  then have "\<exists>ms. findall arrival_re (pre @ kw @ sp1 @ ''at'' @ sp2 @ d1 @ '':'' @ d2 @ post)
      = ms @ (d1 @ '':'' @ d2) # findall arrival_re post"
    by (intro arrival_scan) simp_all
  with a obtain ms where "findall arrival_re (lower text) = ms @ [d1 @ '':'' @ d2]" by auto
  then show "arrival (ongoing_record (parse_user_text dp today text st)) = Some (d1 @ '':'' @ d2)"
    by (simp add: parse_arrival)
next
  assume a: "lower text = pre @ kw @ sp1 @ ''at'' @ sp2 @ d1 @ '':'' @ d2 @ post
      \<and> (kw = ''left'' \<or> kw = ''departed'')
      \<and> sp1 \<noteq> [] \<and> list_all is_space sp1 \<and> sp2 \<noteq> [] \<and> list_all is_space sp2
      \<and> d1 \<noteq> [] \<and> length d1 \<le> 2 \<and> list_all is_digit d1
      \<and> length d2 = 2 \<and> list_all is_digit d2
      \<and> findall departure_re post = []"
  then have "\<exists>ms. findall departure_re (pre @ kw @ sp1 @ ''at'' @ sp2 @ d1 @ '':'' @ d2 @ post)
      = ms @ (d1 @ '':'' @ d2) # findall departure_re post"
    by (intro departure_scan) simp_all
  with a obtain ms where "findall departure_re (lower text) = ms @ [d1 @ '':'' @ d2]" by auto
  then show "departure (ongoing_record (parse_user_text dp today text st)) = Some (d1 @ '':'' @ d2)"
    by (simp add: parse_departure)
next
  assume ne: "findall arrival_re (lower text) \<noteq> []"
  then have "last (findall arrival_re (lower text)) \<in> set (findall arrival_re (lower text))"
    by (rule last_in_set)
  from time_elem [OF arrival_re_def this] ne
  show "\<exists>h m. arrival (ongoing_record (parse_user_text dp today text st)) = Some (h @ '':'' @ m)
          \<and> h \<noteq> [] \<and> length h \<le> 2 \<and> list_all is_digit h
          \<and> length m = 2 \<and> list_all is_digit m \<and> sublist (h @ '':'' @ m) (lower text)"
    by (simp add: parse_arrival)
next
  assume ne: "findall departure_re (lower text) \<noteq> []"
  then have "last (findall departure_re (lower text)) \<in> set (findall departure_re (lower text))"
    by (rule last_in_set)
  from time_elem [OF departure_re_def this] ne
  show "\<exists>h m. departure (ongoing_record (parse_user_text dp today text st)) = Some (h @ '':'' @ m)
          \<and> h \<noteq> [] \<and> length h \<le> 2 \<and> list_all is_digit h
          \<and> length m = 2 \<and> list_all is_digit m \<and> sublist (h @ '':'' @ m) (lower text)"
    by (simp add: parse_departure)
qed

text \<open>A text with two arrival phrases and two departure phrases, the later ones not times
  of day.\<close>

theorem last_time_wins_witness:
  "findall arrival_re (lower ''Came at 9:05, no: ARRIVED  at 25:99. Left at 12:00, departed at 7:61!'')
     = [''9:05'', ''25:99'']
   \<and> findall departure_re (lower ''Came at 9:05, no: ARRIVED  at 25:99. Left at 12:00, departed at 7:61!'')
     = [''12:00'', ''7:61'']
   \<and> arrival (ongoing_record (parse_user_text dp_jan a_day
        ''Came at 9:05, no: ARRIVED  at 25:99. Left at 12:00, departed at 7:61!'' st_plain))
     = Some ''25:99''
   \<and> departure (ongoing_record (parse_user_text dp_jan a_day
        ''Came at 9:05, no: ARRIVED  at 25:99. Left at 12:00, departed at 7:61!'' st_plain))
     = Some ''7:61''
   \<and> (\<exists>h m. arrival (ongoing_record (parse_user_text dp_jan a_day
        ''Came at 9:05, no: ARRIVED  at 25:99. Left at 12:00, departed at 7:61!'' st_plain))
          = Some (h @ '':'' @ m) \<and> length h \<le> 2 \<and> length m = 2)
   \<and> (\<exists>h m. departure (ongoing_record (parse_user_text dp_jan a_day
        ''Came at 9:05, no: ARRIVED  at 25:99. Left at 12:00, departed at 7:61!'' st_plain))
          = Some (h @ '':'' @ m) \<and> length h \<le> 2 \<and> length m = 2)"
proof -
  let ?t = "''Came at 9:05, no: ARRIVED  at 25:99. Left at 12:00, departed at 7:61!''"
  have l: "lower ?t = ''came at 9:05, no: arrived  at 25:99. left at 12:00, departed at 7:61!''"
    by (simp add: chr_defs)
  have fa: "findall arrival_re (lower ?t) = [''9:05'', ''25:99'']"
    unfolding l by (simp add: findall.simps cls_defs rx_defs)
  have fd: "findall departure_re (lower ?t) = [''12:00'', ''7:61'']"
    unfolding l by (simp add: findall.simps cls_defs rx_defs)
  have pa: "findall arrival_re ''. left at 12:00, departed at 7:61!'' = []"
    by (simp add: findall.simps cls_defs rx_defs)
  have pd: "findall departure_re ''!'' = []"
    by (simp add: findall.simps cls_defs rx_defs)
  have da: "lower ?t = ''came at 9:05, no: '' @ ''arrived'' @ ''  '' @ ''at'' @ '' '' @ ''25'' @ '':''
      @ ''99'' @ ''. left at 12:00, departed at 7:61!''"
    by (simp add: l)
  have dd: "lower ?t = ''came at 9:05, no: arrived  at 25:99. left at 12:00, '' @ ''departed''
      @ '' '' @ ''at'' @ '' '' @ ''7'' @ '':'' @ ''61'' @ ''!''"
    by (simp add: l)
  have sh: "list_all is_space ''  ''" "list_all is_space '' ''" "list_all is_digit ''25''"
    "list_all is_digit ''99''" "list_all is_digit ''7''" "list_all is_digit ''61''"
    by (simp_all add: cls_defs)
  note inst = last_time_wins [where dp = dp_jan and today = a_day and st = st_plain and ?text = "?t"]
  have a: "arrival (ongoing_record (parse_user_text dp_jan a_day ?t st_plain))
      = Some (''25'' @ '':'' @ ''99'')"
    using inst [where pre = "''came at 9:05, no: ''" and kw = "''arrived''" and ?sp1.0 = "''  ''"
        and ?sp2.0 = "'' ''" and ?d1.0 = "''25''" and ?d2.0 = "''99''"
        and post = "''. left at 12:00, departed at 7:61!''", THEN conjunct1]
      da sh pa by simp
  have d: "departure (ongoing_record (parse_user_text dp_jan a_day ?t st_plain))
      = Some (''7'' @ '':'' @ ''61'')"
    using inst [where pre = "''came at 9:05, no: arrived  at 25:99. left at 12:00, ''"
        and kw = "''departed''" and ?sp1.0 = "'' ''"
        and ?sp2.0 = "'' ''" and ?d1.0 = "''7''" and ?d2.0 = "''61''"
        and post = "''!''", THEN conjunct2, THEN conjunct1]
      dd sh pd by simp
  have nea: "findall arrival_re (lower ?t) \<noteq> []" by (simp add: fa)
  have ned: "findall departure_re (lower ?t) \<noteq> []" by (simp add: fd)
  from inst [THEN conjunct2, THEN conjunct2, THEN conjunct1, rule_format, OF nea]
  have ea: "\<exists>h m. arrival (ongoing_record (parse_user_text dp_jan a_day ?t st_plain))
          = Some (h @ '':'' @ m) \<and> length h \<le> 2 \<and> length m = 2" by blast
  from inst [THEN conjunct2, THEN conjunct2, THEN conjunct2, rule_format, OF ned]
  have ed: "\<exists>h m. departure (ongoing_record (parse_user_text dp_jan a_day ?t st_plain))
          = Some (h @ '':'' @ m) \<and> length h \<le> 2 \<and> length m = 2" by blast
  from fa fd a d ea ed show ?thesis by simp
qed

text \<open>
  C6: the extractor sets the Friday flag when the lower-cased text contains
  \<open>friday\<close> and otherwise leaves it as it is; so a flag that is true stays true over any
  sequence of further texts.
\<close>

theorem friday_never_cleared:
  "is_friday (ongoing_record (parse_user_text dp today text st)) =
     (is_friday (ongoing_record st) \<or> sublist ''friday'' (lower text))
   \<and> (is_friday (ongoing_record st) \<longrightarrow>
        is_friday (ongoing_record (foldl (\<lambda>s t. parse_user_text dp today t s) st texts)))"
proof
  show "is_friday (ongoing_record (parse_user_text dp today text st)) =
     (is_friday (ongoing_record st) \<or> sublist ''friday'' (lower text))"
    by (rule parse_is_friday)
  show "is_friday (ongoing_record st) \<longrightarrow>
        is_friday (ongoing_record (foldl (\<lambda>s t. parse_user_text dp today t s) st texts))"
    by (induction texts arbitrary: st) (simp_all add: parse_is_friday)
qed

text \<open>A Friday text followed by two texts that do not mention Friday.\<close>

theorem friday_never_cleared_witness:
  "\<not> sublist ''friday'' (lower ''came at 9:05'')
   \<and> \<not> sublist ''friday'' (lower ''left at 12:00'')
   \<and> is_friday (ongoing_record (parse_user_text dp_jan a_day ''It's FRIDAY today'' initial_session))
   \<and> is_friday (ongoing_record (foldl (\<lambda>s t. parse_user_text dp_jan a_day t s)
        (parse_user_text dp_jan a_day ''It's FRIDAY today'' initial_session)
        [''came at 9:05'', ''left at 12:00'']))"
proof -
  have n1: "\<not> sublist ''friday'' (lower ''came at 9:05'')"
    by (simp add: chr_defs sublist_code)
  have n2: "\<not> sublist ''friday'' (lower ''left at 12:00'')"
    by (simp add: chr_defs sublist_code)
  have y: "sublist ''friday'' (lower ''It's FRIDAY today'')"
    by (simp add: chr_defs sublist_code)
  have f: "is_friday (ongoing_record (parse_user_text dp_jan a_day ''It's FRIDAY today'' initial_session))"
    using friday_never_cleared [of dp_jan a_day "''It's FRIDAY today''" initial_session] y
    by simp
  have g: "is_friday (ongoing_record (foldl (\<lambda>s t. parse_user_text dp_jan a_day t s)
        (parse_user_text dp_jan a_day ''It's FRIDAY today'' initial_session)
        [''came at 9:05'', ''left at 12:00'']))"
    using friday_never_cleared [where st = "parse_user_text dp_jan a_day ''It's FRIDAY today'' initial_session"
        and dp = dp_jan and today = a_day and texts = "[''came at 9:05'', ''left at 12:00'']"] f
    by blast
  from n1 n2 f g show ?thesis by blast
qed

text \<open>
  C7: on the scenario text and an empty record the extractor stores arrival \<open>10:40\<close>,
  departure \<open>12:00\<close> and, as topics, the lower-cased text that follows \<open>studied\<close>, date
  phrase included. For every text, the topics are those of the leftmost position at which
  the topics pattern matches.
\<close>

theorem scenario_extraction:
  "arrival (ongoing_record (parse_user_text dp today
      ''Teacher arrived at 10:40, left at 12:00, studied AI for January 10th''
      (st\<lparr>ongoing_record := empty_record\<rparr>))) = Some ''10:40''
   \<and> departure (ongoing_record (parse_user_text dp today
      ''Teacher arrived at 10:40, left at 12:00, studied AI for January 10th''
      (st\<lparr>ongoing_record := empty_record\<rparr>))) = Some ''12:00''
   \<and> topics (ongoing_record (parse_user_text dp today
      ''Teacher arrived at 10:40, left at 12:00, studied AI for January 10th''
      (st\<lparr>ongoing_record := empty_record\<rparr>))) = Some ''ai for january 10th''
   \<and> lower ''Teacher arrived at 10:40, left at 12:00, studied AI for January 10th''
       = ''teacher arrived at 10:40, left at 12:00, studied '' @ ''ai for january 10th''
   \<and> (\<forall>k cap rest. k \<le> length (lower text)
          \<and> (\<forall>j<k. first_match topics_re (drop j (lower text)) = None)
          \<and> first_match topics_re (drop k (lower text)) = Some (cap, rest)
        \<longrightarrow> topics (ongoing_record (parse_user_text dp today text st))
              = Some (strip (group1 cap)))"
proof (intro conjI allI impI)
  let ?t = "''Teacher arrived at 10:40, left at 12:00, studied AI for January 10th''"
  have l: "lower ?t = ''teacher arrived at 10:40, left at 12:00, studied ai for january 10th''"
    by (simp add: chr_defs)
  have a: "findall arrival_re (lower ?t) = [''10:40'']"
    unfolding l by (simp add: findall.simps cls_defs rx_defs)
  have d: "findall departure_re (lower ?t) = [''12:00'']"
    unfolding l by (simp add: findall.simps cls_defs rx_defs)
  have s: "search topics_re (lower ?t) = Some ''ai for january 10th''"
    unfolding l by (simp add: cls_defs rx_defs)
  have p: "strip ''ai for january 10th'' = ''ai for january 10th''"
    by (simp add: strip_def cls_defs)
  show "arrival (ongoing_record (parse_user_text dp today ?t
      (st\<lparr>ongoing_record := empty_record\<rparr>))) = Some ''10:40''"
    by (simp add: parse_arrival a)
  show "departure (ongoing_record (parse_user_text dp today ?t
      (st\<lparr>ongoing_record := empty_record\<rparr>))) = Some ''12:00''"
    by (simp add: parse_departure d)
  show "topics (ongoing_record (parse_user_text dp today ?t
      (st\<lparr>ongoing_record := empty_record\<rparr>))) = Some ''ai for january 10th''"
    by (simp add: parse_topics s p)
  show "lower ?t = ''teacher arrived at 10:40, left at 12:00, studied '' @ ''ai for january 10th''"
    by (simp add: l)
next
  fix k cap rest
  assume "k \<le> length (lower text)
          \<and> (\<forall>j<k. first_match topics_re (drop j (lower text)) = None)
          \<and> first_match topics_re (drop k (lower text)) = Some (cap, rest)"
  then have "search topics_re (lower text) = Some (group1 cap)"
    by (intro search_first [of k _ _ cap rest]) blast+
  then show "topics (ongoing_record (parse_user_text dp today text st))
              = Some (strip (group1 cap))"
    by (simp add: parse_topics)
qed

text \<open>The scenario on the initial session, and a text of two lines with a topics phrase on
  each.\<close>

theorem scenario_extraction_witness:
  "arrival (ongoing_record (parse_user_text dp_jan a_day
      ''Teacher arrived at 10:40, left at 12:00, studied AI for January 10th''
      initial_session)) = Some ''10:40''
   \<and> departure (ongoing_record (parse_user_text dp_jan a_day
      ''Teacher arrived at 10:40, left at 12:00, studied AI for January 10th''
      initial_session)) = Some ''12:00''
   \<and> topics (ongoing_record (parse_user_text dp_jan a_day
      ''Teacher arrived at 10:40, left at 12:00, studied AI for January 10th''
      initial_session)) = Some ''ai for january 10th''
   \<and> topics (ongoing_record (parse_user_text dp_jan a_day
      ''We studied Maths\<newline>then learned chess'' initial_session)) = Some ''maths''"
proof -
  let ?u = "''We studied Maths\<newline>then learned chess''"
  have i: "initial_session\<lparr>ongoing_record := empty_record\<rparr> = initial_session"
    by (simp add: initial_session_def)
  have l: "lower ?u = ''we studied maths\<newline>then learned chess''"
    by (simp add: chr_defs)
  have n: "\<forall>j<3. first_match topics_re (drop j (lower ?u)) = None"
    unfolding l by (simp add: less_Suc_eq numeral_3_eq_3 first_match_def cls_defs rx_defs)
  have f: "first_match topics_re (drop 3 (lower ?u))
      = Some (Some ''maths'', ''\<newline>then learned chess'')"
    unfolding l by (simp add: first_match_def cls_defs rx_defs)
  have k: "3 \<le> length (lower ?u)" by (simp add: lower_def)
  have p: "strip (group1 (Some ''maths'')) = ''maths''"
    by (simp add: group1_def strip_def cls_defs)
  have t: "topics (ongoing_record (parse_user_text dp_jan a_day ?u initial_session))
      = Some (strip (group1 (Some ''maths'')))"
    using scenario_extraction [of dp_jan a_day initial_session ?u, THEN conjunct2, THEN conjunct2,
        THEN conjunct2, THEN conjunct2, rule_format, of 3 "Some ''maths''"
        "''\<newline>then learned chess''"] k n f
    by blast
  from scenario_extraction [of dp_jan a_day initial_session ?u] t
  show ?thesis unfolding i p by blast
qed

text \<open>
  C8: a text that does not contain \<open>friday\<close>, on a record whose Friday flag is false,
  leaves the three marks as they are. When the flag is true, or the text contains
  \<open>friday\<close>, and the lower-cased text has the name of a child, then white space, colons
  and white space (each possibly empty), then one or two digits (as many as the pattern
  takes), and the pattern of that child is not found after it, the digits are stored as
  that child's mark, whatever their value; so \<open>99\<close> is stored.
\<close>

theorem marks_extraction:
  "(\<not> is_friday (ongoing_record st) \<and> \<not> sublist ''friday'' (lower text)
    \<longrightarrow> muhammad_marks (ongoing_record (parse_user_text dp today text st))
          = muhammad_marks (ongoing_record st)
        \<and> abubakar_marks (ongoing_record (parse_user_text dp today text st))
          = abubakar_marks (ongoing_record st)
        \<and> hafsa_marks (ongoing_record (parse_user_text dp today text st))
          = hafsa_marks (ongoing_record st))
   \<and> ((is_friday (ongoing_record st) \<or> sublist ''friday'' (lower text))
      \<and> (name, field) \<in> {(''muhammad'', muhammad_marks), (''abubakar'', abubakar_marks),
            (''hafsa'', hafsa_marks)}
      \<and> lower text = pre @ name @ sp1 @ col @ sp2 @ d @ post
      \<and> list_all is_space sp1 \<and> list_all (\<lambda>c. c = CHR '':'') col \<and> list_all is_space sp2
      \<and> d \<noteq> [] \<and> length d \<le> 2 \<and> list_all is_digit d
      \<and> (length d = 2 \<or> post = [] \<or> \<not> is_digit (hd post))
      \<and> findall (mark_re name) post = []
    \<longrightarrow> field (ongoing_record (parse_user_text dp today text st)) = Some d)
   \<and> muhammad_marks (ongoing_record (parse_user_text dp today ''Friday: Muhammad 99''
        initial_session)) = Some ''99''"
proof (intro conjI impI)
  assume "\<not> is_friday (ongoing_record st) \<and> \<not> sublist ''friday'' (lower text)"
  then show "muhammad_marks (ongoing_record (parse_user_text dp today text st))
          = muhammad_marks (ongoing_record st)"
    "abubakar_marks (ongoing_record (parse_user_text dp today text st))
          = abubakar_marks (ongoing_record st)"
    "hafsa_marks (ongoing_record (parse_user_text dp today text st))
          = hafsa_marks (ongoing_record st)"
    by (simp_all add: parse_muhammad parse_abubakar parse_hafsa)
next
  assume a: "(is_friday (ongoing_record st) \<or> sublist ''friday'' (lower text))
      \<and> (name, field) \<in> {(''muhammad'', muhammad_marks), (''abubakar'', abubakar_marks),
            (''hafsa'', hafsa_marks)}
      \<and> lower text = pre @ name @ sp1 @ col @ sp2 @ d @ post
      \<and> list_all is_space sp1 \<and> list_all (\<lambda>c. c = CHR '':'') col \<and> list_all is_space sp2
      \<and> d \<noteq> [] \<and> length d \<le> 2 \<and> list_all is_digit d
      \<and> (length d = 2 \<or> post = [] \<or> \<not> is_digit (hd post))
      \<and> findall (mark_re name) post = []"
  then have fri: "is_friday (ongoing_record st) \<or> sublist ''friday'' (lower text)" by blast
  from a have nf: "(name = ''muhammad'' \<and> field = muhammad_marks)
      \<or> (name = ''abubakar'' \<and> field = abubakar_marks)
      \<or> (name = ''hafsa'' \<and> field = hafsa_marks)" by blast
  then have name: "name = ''muhammad'' \<or> name = ''abubakar'' \<or> name = ''hafsa''" by blast
  from a have l: "lower text = pre @ name @ sp1 @ col @ sp2 @ d @ post" by blast
  from a have dn: "d \<noteq> []" by blast
  have "parse_mark (pre @ name @ sp1 @ col @ sp2 @ d @ post) name = Some d"
    using name a by (intro mark_last) blast+
  with l have pm: "parse_mark (lower text) name = Some d" by simp
  with dn have tr: "truthy (parse_mark (lower text) name)" by (simp add: truthy_def)
  from nf show "field (ongoing_record (parse_user_text dp today text st)) = Some d"
  proof (elim disjE conjE)
    assume "name = ''muhammad''" "field = muhammad_marks"
    with fri pm tr show ?thesis by (simp add: parse_muhammad)
  next
    assume "name = ''abubakar''" "field = abubakar_marks"
    with fri pm tr show ?thesis by (simp add: parse_abubakar)
  next
    assume "name = ''hafsa''" "field = hafsa_marks"
    with fri pm tr show ?thesis by (simp add: parse_hafsa)
  qed
next
  have l: "lower ''Friday: Muhammad 99'' = ''friday: muhammad 99''" by (simp add: chr_defs)
  have f: "sublist ''friday'' (lower ''Friday: Muhammad 99'')"
    unfolding l by (simp add: sublist_code)
  have m: "findall (mark_re ''muhammad'') (lower ''Friday: Muhammad 99'') = [''99'']"
    unfolding l by (simp add: findall.simps cls_defs rx_defs)
  show "muhammad_marks (ongoing_record (parse_user_text dp today ''Friday: Muhammad 99''
        initial_session)) = Some ''99''"
    by (simp add: parse_muhammad f parse_mark_def m truthy_def)
qed

text \<open>A text with several marks, two of them for the same child, on the initial session;
  a text with a mark but no Friday, on the initial session; and a text with a mark on a
  record that is already a Friday one.\<close>

theorem marks_extraction_witness:
  "findall (mark_re ''muhammad'')
      (lower ''FRIDAY marks: Muhammad 18, Abubakar: 15, hafsa  :: 7th. Correction, Muhammad : 99'')
     = [''18'', ''99'']
   \<and> muhammad_marks (ongoing_record (parse_user_text dp_jan a_day
        ''FRIDAY marks: Muhammad 18, Abubakar: 15, hafsa  :: 7th. Correction, Muhammad : 99''
        initial_session)) = Some ''99''
   \<and> abubakar_marks (ongoing_record (parse_user_text dp_jan a_day
        ''FRIDAY marks: Muhammad 18, Abubakar: 15, hafsa  :: 7th. Correction, Muhammad : 99''
        initial_session)) = Some ''15''
   \<and> hafsa_marks (ongoing_record (parse_user_text dp_jan a_day
        ''FRIDAY marks: Muhammad 18, Abubakar: 15, hafsa  :: 7th. Correction, Muhammad : 99''
        initial_session)) = Some ''7''
   \<and> muhammad_marks (ongoing_record (parse_user_text dp_jan a_day ''Muhammad 18'' initial_session))
     = None
   \<and> abubakar_marks (ongoing_record (parse_user_text dp_jan a_day ''Muhammad 18'' initial_session))
     = None
   \<and> hafsa_marks (ongoing_record (parse_user_text dp_jan a_day ''Muhammad 18'' initial_session))
     = None
   \<and> muhammad_marks (ongoing_record (parse_user_text dp_jan a_day ''Muhammad 18''
        (st_plain\<lparr>ongoing_record := rec_plain\<lparr>is_friday := True\<rparr>\<rparr>))) = Some ''18''"
proof -
  let ?t = "''FRIDAY marks: Muhammad 18, Abubakar: 15, hafsa  :: 7th. Correction, Muhammad : 99''"
  let ?f = "st_plain\<lparr>ongoing_record := rec_plain\<lparr>is_friday := True\<rparr>\<rparr>"
  have l: "lower ?t
      = ''friday marks: muhammad 18, abubakar: 15, hafsa  :: 7th. correction, muhammad : 99''"
    by (simp add: chr_defs)
  have l2: "lower ''Muhammad 18'' = ''muhammad 18''" by (simp add: chr_defs)
  have fm: "findall (mark_re ''muhammad'') (lower ?t) = [''18'', ''99'']"
    unfolding l by (simp add: findall.simps cls_defs rx_defs)
  have fri: "sublist ''friday'' (lower ?t)" unfolding l by (simp add: sublist_code)
  have nofri: "\<not> sublist ''friday'' (lower ''Muhammad 18'')"
    unfolding l2 by (simp add: sublist_code)
  have flag0: "\<not> is_friday (ongoing_record initial_session)"
    by (simp add: initial_session_def empty_record_def)
  have flag1: "is_friday (ongoing_record ?f)" by simp
  have old: "muhammad_marks (ongoing_record initial_session) = None"
    "abubakar_marks (ongoing_record initial_session) = None"
    "hafsa_marks (ongoing_record initial_session) = None"
    by (simp_all add: initial_session_def empty_record_def)
  have sh: "list_all is_space '' ''" "list_all is_space ''  ''" "list_all is_space ''''"
    "list_all (\<lambda>c. c = CHR '':'') '':''" "list_all (\<lambda>c. c = CHR '':'') ''::''"
    "list_all (\<lambda>c. c = CHR '':'') ''''"
    "list_all is_digit ''99''" "list_all is_digit ''15''" "list_all is_digit ''7''"
    "list_all is_digit ''18''" "\<not> is_digit (hd ''th. correction, muhammad : 99'')"
    by (simp_all add: cls_defs)
  have e: "findall (mark_re ''muhammad'') '''' = []"
    "findall (mark_re ''abubakar'') '', hafsa  :: 7th. correction, muhammad : 99'' = []"
    "findall (mark_re ''hafsa'') ''th. correction, muhammad : 99'' = []"
    by (simp_all add: findall.simps cls_defs rx_defs)
  have dm: "lower ?t = ''friday marks: muhammad 18, abubakar: 15, hafsa  :: 7th. correction, ''
      @ ''muhammad'' @ '' '' @ '':'' @ '' '' @ ''99'' @ ''''"
    and da: "lower ?t = ''friday marks: muhammad 18, '' @ ''abubakar'' @ '''' @ '':'' @ '' ''
      @ ''15'' @ '', hafsa  :: 7th. correction, muhammad : 99''"
    and dh: "lower ?t = ''friday marks: muhammad 18, abubakar: 15, '' @ ''hafsa'' @ ''  ''
      @ ''::'' @ '' '' @ ''7'' @ ''th. correction, muhammad : 99''"
    and d2: "lower ''Muhammad 18'' = '''' @ ''muhammad'' @ '' '' @ '''' @ '''' @ ''18'' @ ''''"
    by (simp_all add: l l2)
  have m: "muhammad_marks (ongoing_record (parse_user_text dp_jan a_day ?t initial_session))
      = Some ''99''"
    using marks_extraction [where st = initial_session and dp = dp_jan and today = a_day
        and ?text = "?t" and name = "''muhammad''" and field = muhammad_marks
        and pre = "''friday marks: muhammad 18, abubakar: 15, hafsa  :: 7th. correction, ''"
        and ?sp1.0 = "'' ''" and col = "'':''" and ?sp2.0 = "'' ''" and d = "''99''"
        and post = "''''", THEN conjunct2, THEN conjunct1]
      fri dm sh e by simp
  have a: "abubakar_marks (ongoing_record (parse_user_text dp_jan a_day ?t initial_session))
      = Some ''15''"
    using marks_extraction [where st = initial_session and dp = dp_jan and today = a_day
        and ?text = "?t" and name = "''abubakar''" and field = abubakar_marks
        and pre = "''friday marks: muhammad 18, ''"
        and ?sp1.0 = "''''" and col = "'':''" and ?sp2.0 = "'' ''" and d = "''15''"
        and post = "'', hafsa  :: 7th. correction, muhammad : 99''", THEN conjunct2, THEN conjunct1]
      fri da sh e by simp
  have h: "hafsa_marks (ongoing_record (parse_user_text dp_jan a_day ?t initial_session))
      = Some ''7''"
    using marks_extraction [where st = initial_session and dp = dp_jan and today = a_day
        and ?text = "?t" and name = "''hafsa''" and field = hafsa_marks
        and pre = "''friday marks: muhammad 18, abubakar: 15, ''"
        and ?sp1.0 = "''  ''" and col = "''::''" and ?sp2.0 = "'' ''" and d = "''7''"
        and post = "''th. correction, muhammad : 99''", THEN conjunct2, THEN conjunct1]
      fri dh sh e by simp
  have n: "muhammad_marks (ongoing_record (parse_user_text dp_jan a_day ''Muhammad 18'' initial_session))
      = None
    \<and> abubakar_marks (ongoing_record (parse_user_text dp_jan a_day ''Muhammad 18'' initial_session))
      = None
    \<and> hafsa_marks (ongoing_record (parse_user_text dp_jan a_day ''Muhammad 18'' initial_session))
      = None"
    using marks_extraction [where st = initial_session and dp = dp_jan and today = a_day
        and ?text = "''Muhammad 18''", THEN conjunct1] flag0 nofri old by simp
  have k: "muhammad_marks (ongoing_record (parse_user_text dp_jan a_day ''Muhammad 18'' ?f))
      = Some ''18''"
    using marks_extraction [where st = "?f" and dp = dp_jan and today = a_day
        and ?text = "''Muhammad 18''" and name = "''muhammad''" and field = muhammad_marks
        and pre = "''''" and ?sp1.0 = "'' ''" and col = "''''" and ?sp2.0 = "''''" and d = "''18''"
        and post = "''''", THEN conjunct2, THEN conjunct1]
      flag1 d2 sh e by simp
  from fm m a h n k show ?thesis by simp
qed

text \<open>
  C9: the reminder is shown exactly when the hour is at least 18 and no stored record has
  today's date as its date string; below 18 it is never shown.
\<close>

theorem reminder_iff:
  "(check_reminder now st \<longleftrightarrow>
      hour now \<ge> 18 \<and>
      (\<forall>rec \<in> set (teacher_data st). date_str rec \<noteq> Some (str_date (dt_date now))))
   \<and> (hour now < 18 \<longrightarrow> \<not> check_reminder now st)"
  by (auto simp add: check_reminder_def Let_def list_ex_iff)

text \<open>At 18:30 and at 17:59, with an empty store and with a record dated today.\<close>

theorem reminder_iff_witness:
  "check_reminder at_1830 initial_session
   \<and> \<not> check_reminder at_1830 (initial_session\<lparr>teacher_data := [rec_plain]\<rparr>)
   \<and> \<not> check_reminder at_1759 initial_session
   \<and> \<not> check_reminder at_1759 (initial_session\<lparr>teacher_data := [rec_plain]\<rparr>)"
proof -
  have s: "str_date a_day = ''2025-02-11''" by (simp add: a_day_def date_defs)
  have a: "check_reminder at_1830 initial_session"
    using reminder_iff [of at_1830 initial_session]
    by (simp add: at_1830_def initial_session_def)
  have b: "\<not> check_reminder at_1830 (initial_session\<lparr>teacher_data := [rec_plain]\<rparr>)"
    using reminder_iff [of at_1830 "initial_session\<lparr>teacher_data := [rec_plain]\<rparr>"] s
    by (simp add: at_1830_def rec_plain_def)
  have c: "\<not> check_reminder at_1759 initial_session"
    using reminder_iff [of at_1759 initial_session] by (simp add: at_1759_def)
  have d: "\<not> check_reminder at_1759 (initial_session\<lparr>teacher_data := [rec_plain]\<rparr>)"
    using reminder_iff [of at_1759 "initial_session\<lparr>teacher_data := [rec_plain]\<rparr>"]
    by (simp add: at_1759_def)
  from a b c d show ?thesis by blast
qed

text \<open>
  C10: after the extractor has run the date is set, so the list of missing fields does
  not contain \<open>date_str\<close> and a submission never asks for it.
\<close>

theorem date_never_missing:
  "date_str (ongoing_record (parse_user_text dp today text st)) \<noteq> None
   \<and> ''date_str'' \<notin> set (find_missing_fields (parse_user_text dp today text st))
   \<and> ask_line ''date_str'' \<notin> set (snd (submit dp today llm text st))"
proof (intro conjI)
  show d: "date_str (ongoing_record (parse_user_text dp today text st)) \<noteq> None"
    by (simp add: parse_date_str split: option.splits)
  then show m: "''date_str'' \<notin> set (find_missing_fields (parse_user_text dp today text st))"
    by (simp add: find_missing_fields_def Let_def)
  have asked: "ask_line ''date_str'' \<notin> set (map ask_line (find_missing_fields (parse_user_text dp today text st)))"
    unfolding set_map
  proof
    assume "ask_line ''date_str'' \<in> ask_line ` set (find_missing_fields (parse_user_text dp today text st))"
    then obtain f where f: "f \<in> set (find_missing_fields (parse_user_text dp today text st))"
      and eq: "ask_line ''date_str'' = ask_line f" by (rule imageE)
    from eq [symmetric] have fe: "f = ''date_str''" by (simp only: ask_line_inj)
    from m f [unfolded fe] show False by (rule notE)
  qed
  have w: "ask_line f \<noteq> Warning w" "ask_line f \<noteq> Success w" "ask_line f \<noteq> Info w" for f w
    by (simp_all only: ask_line_def ui.distinct not_False_eq_True)
  show "ask_line ''date_str'' \<notin> set (snd (submit dp today llm text st))"
    using asked by (simp add: submit_def Let_def finalize_record_def w)
qed

text \<open>A text with no date at all.\<close>

theorem date_never_missing_witness:
  "date_str (ongoing_record (parse_user_text dp_jan a_day ''hello'' initial_session))
     = Some ''2025-02-11''
   \<and> ''date_str'' \<notin> set (find_missing_fields (parse_user_text dp_jan a_day ''hello'' initial_session))
   \<and> ask_line ''date_str'' \<notin> set (snd (submit dp_jan a_day llm_down ''hello'' initial_session))"
proof -
  have c: "findall date_re ''hello'' = []"
    by (simp add: findall.simps cls_defs chr_defs rx_defs)
  have s: "str_date a_day = ''2025-02-11''" by (simp add: a_day_def date_defs)
  have a: "date_str (ongoing_record (parse_user_text dp_jan a_day ''hello'' initial_session))
     = Some ''2025-02-11''"
    by (simp add: parse_date_str c s initial_session_def empty_record_def)
  from a date_never_missing [of dp_jan a_day "''hello''" initial_session llm_down]
  show ?thesis by blast
qed

end
